theory Spec2Isabelle
  imports Main "HOL-Library.Char_ord" "HOL-Library.List_Lexorder"
begin

section \<open>Python string primitives used by the slot subsystem\<close>

text \<open>
  Strings are byte strings here; the primitives below are Python's \<open>str\<close> methods
  restricted to ASCII text, which is what shelf names, row letters, bounds and labels
  are made of. A Python exception is a value of type \<open>py_error\<close>.
\<close>

datatype py_error = IndexError | ValueError

definition is_space :: "char \<Rightarrow> bool" where
  "is_space c = (let n = (of_char c :: nat) in (9 \<le> n \<and> n \<le> 13) \<or> (28 \<le> n \<and> n \<le> 32))"

definition is_digit :: "char \<Rightarrow> bool" where
  "is_digit c = (let n = (of_char c :: nat) in 48 \<le> n \<and> n \<le> 57)"

definition is_lower :: "char \<Rightarrow> bool" where
  "is_lower c = (let n = (of_char c :: nat) in 97 \<le> n \<and> n \<le> 122)"

definition is_upper :: "char \<Rightarrow> bool" where
  "is_upper c = (let n = (of_char c :: nat) in 65 \<le> n \<and> n \<le> 90)"

definition is_alpha :: "char \<Rightarrow> bool" where
  "is_alpha c = (is_lower c \<or> is_upper c)"

definition upper_char :: "char \<Rightarrow> char" where
  "upper_char c = (if is_lower c then char_of ((of_char c :: nat) - 32) else c)"

definition lower_char :: "char \<Rightarrow> char" where
  "lower_char c = (if is_upper c then char_of ((of_char c :: nat) + 32) else c)"

definition py_upper :: "string \<Rightarrow> string" where
  "py_upper s = map upper_char s"

definition py_lower :: "string \<Rightarrow> string" where
  "py_lower s = map lower_char s"

definition py_strip :: "string \<Rightarrow> string" where
  "py_strip s = rev (dropWhile is_space (rev (dropWhile is_space s)))"



text \<open>\<open>s.split(sep)\<close> for a one-character separator: always at least one part.\<close>

fun split_on :: "char \<Rightarrow> string \<Rightarrow> string \<Rightarrow> string list" where
  "split_on sep cur [] = [cur]"
| "split_on sep cur (c # cs) =
     (if c = sep then cur # split_on sep [] cs else split_on sep (cur @ [c]) cs)"

definition py_split_sep :: "char \<Rightarrow> string \<Rightarrow> string list" where
  "py_split_sep sep s = split_on sep [] s"

text \<open>\<open>s.replace("--", "-")\<close>: non-overlapping occurrences, left to right.\<close>

fun replace_dashes :: "string \<Rightarrow> string" where
  "replace_dashes (a # b # cs) =
     (if a = CHR ''-'' \<and> b = CHR ''-'' then CHR ''-'' # replace_dashes cs
      else a # replace_dashes (b # cs))"
| "replace_dashes cs = cs"

definition remove_spaces :: "string \<Rightarrow> string" where
  "remove_spaces s = filter (\<lambda>c. c \<noteq> CHR '' '') s"

definition py_isdigit :: "string \<Rightarrow> bool" where
  "py_isdigit s = (s \<noteq> [] \<and> list_all is_digit s)"

text \<open>
  \<open>int(s)\<close> in base 10: leading and trailing whitespace is skipped (for \<open>int\<close> that
  is the bytes 9 to 13 and the blank only, a smaller set than \<open>str.strip\<close> drops), one
  sign is allowed, then decimal digits with single underscores between digits. Anything
  else raises \<open>ValueError\<close>, which is \<open>None\<close> here (every caller catches it).
\<close>

definition is_int_space :: "char \<Rightarrow> bool" where
  "is_int_space c = (let n = (of_char c :: nat) in (9 \<le> n \<and> n \<le> 13) \<or> n = 32)"

definition digit_val :: "char \<Rightarrow> int" where
  "digit_val c = int (of_char c) - 48"

fun digits_acc :: "int \<Rightarrow> bool \<Rightarrow> string \<Rightarrow> int option" where
  "digits_acc acc after_digit [] = (if after_digit then Some acc else None)"
| "digits_acc acc after_digit (c # cs) =
     (if is_digit c then digits_acc (acc * 10 + digit_val c) True cs
      else if c = CHR ''_'' \<and> after_digit then digits_acc acc False cs
      else None)"

definition py_int :: "string \<Rightarrow> int option" where
  "py_int s =
     (case rev (dropWhile is_int_space (rev (dropWhile is_int_space s))) of
        [] \<Rightarrow> None
      | c # cs \<Rightarrow>
          if c = CHR ''-'' then map_option uminus (digits_acc 0 False cs)
          else if c = CHR ''+'' then digits_acc 0 False cs
          else digits_acc 0 False (c # cs))"

text \<open>\<open>str(n)\<close> for an integer, as the f-string of a label formats the column.\<close>

definition digit_char :: "nat \<Rightarrow> char" where
  "digit_char d = char_of (48 + d)"

fun nat_digits :: "nat \<Rightarrow> string" where
  "nat_digits n = (if n < 10 then [digit_char n] else nat_digits (n div 10) @ [digit_char (n mod 10)])"

declare nat_digits.simps [simp del]

definition py_str :: "int \<Rightarrow> string" where
  "py_str i = (if i < 0 then CHR ''-'' # nat_digits (nat (- i)) else nat_digits (nat i))"

section \<open>The relational store\<close>

text \<open>
  One record per table of \<open>init_db\<close>; a table is the list of its rows in rowid
  order, a nullable column is an \<open>option\<close>. \<open>db_fetchone\<close> is the first matching row.
\<close>

record slot =
  sid :: int
  shelf :: string
  row :: string
  col :: int
  occupied :: int

record prescription =
  presc_id :: int
  patient_id :: int
  medication :: string
  basket_size :: "string option"
  slot_id :: "int option"

record patient =
  pat_id :: int
  pat_name :: string

record shelf_rec =
  name :: string
  rows_count :: int
  cols_count :: int

record letter_section =
  letter :: string
  ls_shelf :: "string option"
  lower_bound :: "string option"
  upper_bound :: "string option"

text \<open>
  \<open>slots_seq\<close> is the AUTOINCREMENT counter of the slots table (the largest id ever
  handed out). The actions log is write-only for this subsystem and is left out.
\<close>

record db =
  patients :: "patient list"
  prescriptions :: "prescription list"
  shelves :: "shelf_rec list"
  slots :: "slot list"
  slots_seq :: int
  letter_sections :: "letter_section list"

section \<open>Slot and section utilities\<close>

definition rows_range :: "char \<Rightarrow> char \<Rightarrow> char list" where
  "rows_range start_row end_row = map char_of [of_char start_row ..< of_char end_row + (1::nat)]"

definition parse_bound :: "string option \<Rightarrow> (char \<times> int) option" where
  "parse_bound bound_text =
     (case bound_text of
        None \<Rightarrow> None
      | Some t \<Rightarrow>
          if t = [] then None
          else let s = py_upper (py_strip t) in
            if length s < 2 then None
            else let r = hd s in
              if \<not> is_alpha r then None
              else (case py_int (tl s) of
                      None \<Rightarrow> None
                    | Some c \<Rightarrow>
                        if \<not> (CHR ''A'' \<le> r \<and> r \<le> CHR ''Z'') then None
                        else if c \<le> 0 then None
                        else Some (r, c)))"

definition slot_id_to_tuple :: "db \<Rightarrow> int \<Rightarrow> (string \<times> string \<times> int) option" where
  "slot_id_to_tuple d i =
     map_option (\<lambda>s. (shelf s, row s, col s)) (find (\<lambda>s. sid s = i) (slots d))"

definition get_slot_by_position :: "db \<Rightarrow> string \<Rightarrow> string \<Rightarrow> int \<Rightarrow> (int \<times> int) option" where
  "get_slot_by_position d sh r c =
     map_option (\<lambda>s. (sid s, occupied s))
       (find (\<lambda>s. shelf s = sh \<and> row s = r \<and> col s = c) (slots d))"

definition slot_id_to_label :: "db \<Rightarrow> int \<Rightarrow> string" where
  "slot_id_to_label d i =
     (case slot_id_to_tuple d i of
        None \<Rightarrow> []
      | Some (s, rrow, c) \<Rightarrow> s @ ''-'' @ rrow @ py_str c)"

definition label_to_slot_id :: "db \<Rightarrow> string \<Rightarrow> int option" where
  "label_to_slot_id d label =
     (if label = [] then None
      else let s = remove_spaces (replace_dashes (py_upper (py_strip label))) in
        if py_isdigit s then
          (case py_int s of
             None \<Rightarrow> None
           | Some n \<Rightarrow> (case find (\<lambda>x. sid x = n) (slots d) of None \<Rightarrow> None | Some _ \<Rightarrow> Some n))
        else (case py_split_sep (CHR ''-'') s of
            [sh, rowcol] \<Rightarrow>
              if length rowcol \<ge> 2 then
                (case py_int (tl rowcol) of
                   None \<Rightarrow> None
                 | Some c \<Rightarrow> map_option fst (get_slot_by_position d sh [hd rowcol] c))
              else None
          | [sh, r, coltxt] \<Rightarrow>
              (case py_int coltxt of
                 None \<Rightarrow> None
               | Some c \<Rightarrow> map_option fst (get_slot_by_position d sh r c))
          | _ \<Rightarrow> None))"

definition next_col_partner_slot_id :: "db \<Rightarrow> int \<Rightarrow> int option" where
  "next_col_partner_slot_id d primary_slot_id =
     (case slot_id_to_tuple d primary_slot_id of
        None \<Rightarrow> None
      | Some (sh, r, c) \<Rightarrow> map_option fst (get_slot_by_position d sh r (c + 1)))"

definition get_letter_section :: "db \<Rightarrow> string \<Rightarrow> (string \<times> char \<times> int \<times> char \<times> int) option" where
  "get_letter_section d l =
     (case find (\<lambda>x. letter x = l) (letter_sections d) of
        None \<Rightarrow> None
      | Some x \<Rightarrow>
          if ls_shelf x = None \<or> ls_shelf x = Some [] \<or> lower_bound x = None \<or> lower_bound x = Some []
             \<or> upper_bound x = None \<or> upper_bound x = Some [] then None
          else (case parse_bound (lower_bound x) of
                  None \<Rightarrow> None
                | Some lo \<Rightarrow>
                    (case parse_bound (upper_bound x) of
                       None \<Rightarrow> None
                     | Some up \<Rightarrow> Some (the (ls_shelf x), fst lo, snd lo, fst up, snd up))))"

definition get_overflow_section :: "db \<Rightarrow> (string \<times> char \<times> int \<times> char \<times> int) option" where
  "get_overflow_section d = get_letter_section d ''Overflow''"

section \<open>Patient letter and section membership\<close>


definition is_slot_in_letter_section :: "db \<Rightarrow> string \<Rightarrow> int \<Rightarrow> bool" where
  "is_slot_in_letter_section d l i =
     (if l = ''Overflow'' then True
      else (case get_letter_section d l of
              None \<Rightarrow> True
            | Some (sh, sr, sc, er, ec) \<Rightarrow>
                (case slot_id_to_tuple d i of
                   None \<Rightarrow> True
                 | Some (sname, r, c) \<Rightarrow>
                     if sname \<noteq> sh then False
                     else if r < [sr] \<or> r > [er] then False
                     else if r = [sr] \<and> c < sc then False
                     else if r = [er] \<and> c > ec then False
                     else True)))"

section \<open>Large-basket helpers\<close>

definition basket_norm :: "string option \<Rightarrow> string" where
  "basket_norm b = py_lower (case b of None \<Rightarrow> ''small'' | Some t \<Rightarrow> if t = [] then ''small'' else t)"

definition truthy_id :: "int option \<Rightarrow> bool" where
  "truthy_id x = (case x of None \<Rightarrow> False | Some i \<Rightarrow> i \<noteq> 0)"

definition expand_slots_for_large_display_or_freeing :: "db \<Rightarrow> int \<Rightarrow> int list" where
  "expand_slots_for_large_display_or_freeing d p =
     (case find (\<lambda>x. presc_id x = p) (prescriptions d) of
        None \<Rightarrow> []
      | Some rec \<Rightarrow>
          (case slot_id rec of
             None \<Rightarrow> []
           | Some s \<Rightarrow>
               if s = 0 then []
               else if basket_norm (basket_size rec) \<noteq> ''large'' then [s]
               else (case next_col_partner_slot_id d s of
                       None \<Rightarrow> [s]
                     | Some partner \<Rightarrow> if partner \<noteq> 0 then [s, partner] else [s])))"

section \<open>Shelves and slot population\<close>

definition next_slot_id :: "db \<Rightarrow> int" where
  "next_slot_id d = max (slots_seq d) (fold max (map sid (slots d)) 0) + 1"

definition insert_slot :: "string \<Rightarrow> string \<Rightarrow> int \<Rightarrow> db \<Rightarrow> db" where
  "insert_slot sh r c d =
     (let i = next_slot_id d in
      d\<lparr>slots := slots d @ [\<lparr>sid = i, shelf = sh, row = r, col = c, occupied = 0\<rparr>],
        slots_seq := i\<rparr>)"

definition populate_slots_for_shelf :: "db \<Rightarrow> string \<Rightarrow> int \<Rightarrow> int \<Rightarrow> db" where
  "populate_slots_for_shelf d shelf_name rows cols =
     (if length (filter (\<lambda>s. shelf s = shelf_name) (slots d)) > 0 then d
      else fold (\<lambda>i d1. fold (\<lambda>c d2. insert_slot shelf_name [char_of (nat (65 + i))] c d2) [1..cols] d1)
             [0..rows - 1] d)"

section \<open>Occupancy ledger\<close>

definition set_occupied :: "int \<Rightarrow> int \<Rightarrow> db \<Rightarrow> db" where
  "set_occupied v i d = d\<lparr>slots := map (\<lambda>s. if sid s = i then s\<lparr>occupied := v\<rparr> else s) (slots d)\<rparr>"

definition mark_slots_occupied :: "db \<Rightarrow> int list \<Rightarrow> db" where
  "mark_slots_occupied d slot_ids = fold (set_occupied 1) slot_ids d"

definition mark_slots_free :: "db \<Rightarrow> int list \<Rightarrow> db" where
  "mark_slots_free d slot_ids = fold (set_occupied 0) slot_ids d"

definition clear_all_occupied :: "db \<Rightarrow> db" where
  "clear_all_occupied d = d\<lparr>slots := map (\<lambda>s. s\<lparr>occupied := 0\<rparr>) (slots d)\<rparr>"

text \<open>
  The loop of \<open>repair_slot_occupancy\<close> that collects \<open>seen\<close>. The Python set is a list
  without duplicates; \<open>List.insert\<close> is \<open>seen.add\<close>.
\<close>

fun collect_seen :: "db \<Rightarrow> prescription list \<Rightarrow> int list \<Rightarrow> int list" where
  "collect_seen d [] seen = seen"
| "collect_seen d (p # ps) seen =
     (case slot_id p of
        None \<Rightarrow> collect_seen d ps seen
      | Some s \<Rightarrow>
          if s = 0 then collect_seen d ps seen
          else let seen1 =
                 (if basket_norm (basket_size p) = ''large'' then
                    (case next_col_partner_slot_id d s of
                       None \<Rightarrow> seen
                     | Some partner \<Rightarrow> if partner \<noteq> 0 then List.insert partner seen else seen)
                  else seen)
               in collect_seen d ps (List.insert s seen1))"

definition repair_slot_occupancy :: "db \<Rightarrow> db" where
  "repair_slot_occupancy d =
     (let d0 = clear_all_occupied d;
          seen = collect_seen d (prescriptions d) []
      in fold (set_occupied 1) seen d0)"

section \<open>Section search\<close>

definition max_col :: "db \<Rightarrow> string \<Rightarrow> string \<Rightarrow> int option" where
  "max_col d sh r =
     (case map col (filter (\<lambda>s. shelf s = sh \<and> row s = r) (slots d)) of
        [] \<Rightarrow> None
      | c # cs \<Rightarrow> Some (fold max cs c))"

text \<open>The inner \<open>for c in range(c_start, c_end + 1)\<close> loop of \<open>find_slot_in_section\<close>.\<close>

fun scan_cols :: "db \<Rightarrow> string \<Rightarrow> string \<Rightarrow> string \<Rightarrow> int list \<Rightarrow> int list option" where
  "scan_cols d shelf_name r basket [] = None"
| "scan_cols d shelf_name r basket (c # cs) =
     (case get_slot_by_position d shelf_name r c of
        None \<Rightarrow> scan_cols d shelf_name r basket cs
      | Some (i, occ) \<Rightarrow>
          if occ \<noteq> 0 then scan_cols d shelf_name r basket cs
          else if basket = ''large'' then
            (case get_slot_by_position d shelf_name r (c + 1) of
               None \<Rightarrow> scan_cols d shelf_name r basket cs
             | Some (i2, occ2) \<Rightarrow>
                 if occ2 = 0 then Some [i, i2] else scan_cols d shelf_name r basket cs)
          else Some [i])"

text \<open>The outer \<open>for r in rows\<close> loop.\<close>

fun scan_rows :: "db \<Rightarrow> string \<Rightarrow> char \<Rightarrow> int \<Rightarrow> char \<Rightarrow> int \<Rightarrow> string \<Rightarrow> char list
    \<Rightarrow> (int list \<times> string) option" where
  "scan_rows d shelf_name start_row start_col end_row end_col basket [] = None"
| "scan_rows d shelf_name start_row start_col end_row end_col basket (r # rs) =
     (let c_start = (if r = start_row then start_col else 1);
          c_end = (if r = end_row then end_col else 10000)
      in case max_col d shelf_name [r] of
           None \<Rightarrow> scan_rows d shelf_name start_row start_col end_row end_col basket rs
         | Some m \<Rightarrow>
             if m = 0 then scan_rows d shelf_name start_row start_col end_row end_col basket rs
             else (case scan_cols d shelf_name [r] basket [c_start .. min c_end m] of
                     Some ids \<Rightarrow> Some (ids, shelf_name)
                   | None \<Rightarrow> scan_rows d shelf_name start_row start_col end_row end_col basket rs))"

definition find_slot_in_section :: "db \<Rightarrow> string \<Rightarrow> char \<Rightarrow> int \<Rightarrow> char \<Rightarrow> int \<Rightarrow> string
    \<Rightarrow> (int list \<times> string) option" where
  "find_slot_in_section d shelf_name start_row start_col end_row end_col basket =
     scan_rows d shelf_name start_row start_col end_row end_col basket (rows_range start_row end_row)"

definition find_next_available_slot_primary :: "db \<Rightarrow> string \<Rightarrow> string \<Rightarrow> (int list \<times> string) option" where
  "find_next_available_slot_primary d l basket =
     (case get_letter_section d l of
        None \<Rightarrow> None
      | Some (sh, sr, sc, er, ec) \<Rightarrow> find_slot_in_section d sh sr sc er ec basket)"

definition find_next_available_slot_with_overflow :: "db \<Rightarrow> string \<Rightarrow> string \<Rightarrow> (int list \<times> string) option" where
  "find_next_available_slot_with_overflow d l basket =
     (case find_next_available_slot_primary d l basket of
        Some res \<Rightarrow> Some res
      | None \<Rightarrow>
          (case get_overflow_section d of
             None \<Rightarrow> None
           | Some (sh, sr, sc, er, ec) \<Rightarrow>
               (case find_slot_in_section d sh sr sc er ec basket of
                  Some res2 \<Rightarrow> Some res2
                | None \<Rightarrow> None)))"

section \<open>Deleting prescriptions and editing a shelf\<close>

text \<open>
  The body of the loop of \<open>delete_selected_prescriptions\<close> for one selected row, and
  the loop over the selection once the user has confirmed the dialog.
\<close>

definition delete_one_prescription :: "db \<Rightarrow> int \<Rightarrow> db" where
  "delete_one_prescription d prid =
     (case find (\<lambda>x. presc_id x = prid) (prescriptions d) of
        None \<Rightarrow> d
      | Some r \<Rightarrow>
          let d1 =
            (if truthy_id (slot_id r) then
               (if basket_norm (basket_size r) = ''large'' then
                  mark_slots_free d (filter (\<lambda>s. s \<noteq> 0) (expand_slots_for_large_display_or_freeing d prid))
                else mark_slots_free d [the (slot_id r)])
             else d)
          in d1\<lparr>prescriptions := filter (\<lambda>x. presc_id x \<noteq> prid) (prescriptions d1)\<rparr>)"

definition delete_selected_prescriptions :: "db \<Rightarrow> int list \<Rightarrow> bool \<Rightarrow> db" where
  "delete_selected_prescriptions d sel confirmed =
     (if sel = [] then d
      else if \<not> confirmed then d
      else fold (\<lambda>prid d1. delete_one_prescription d1 prid) sel d)"

datatype edit_error = NoSelection | NotIntegers | Cancelled | NameExists

definition apply_edit :: "db \<Rightarrow> string list \<Rightarrow> string \<Rightarrow> string \<Rightarrow> string \<Rightarrow> bool \<Rightarrow> edit_error + db" where
  "apply_edit d sel new_name_text rows_text cols_text confirmed =
     (case sel of
        [] \<Rightarrow> Inl NoSelection
      | current # _ \<Rightarrow>
          let new_name = py_upper (py_strip (if new_name_text = [] then current else new_name_text)) in
          (case (py_int (py_strip rows_text), py_int (py_strip cols_text)) of
             (Some rows, Some cols) \<Rightarrow>
               if \<not> confirmed then Inl Cancelled
               else if new_name \<noteq> current \<and> find (\<lambda>x. name x = new_name) (shelves d) \<noteq> None
               then Inl NameExists
               else
                 let d1 = (if new_name \<noteq> current then
                     d\<lparr>shelves := map (\<lambda>x. if name x = current then x\<lparr>name := new_name\<rparr> else x) (shelves d),
                       slots := map (\<lambda>s. if shelf s = current then s\<lparr>shelf := new_name\<rparr> else s) (slots d),
                       letter_sections := map (\<lambda>x. if ls_shelf x = Some current
                                                    then x\<lparr>ls_shelf := Some new_name\<rparr> else x) (letter_sections d)\<rparr>
                     else d);
                     d2 = d1\<lparr>shelves := map (\<lambda>x. if name x = new_name
                                                 then x\<lparr>rows_count := rows, cols_count := cols\<rparr> else x) (shelves d1)\<rparr>
                 in Inr (populate_slots_for_shelf d2 new_name rows cols)
           | _ \<Rightarrow> Inl NotIntegers))"

section \<open>Specification-level notions\<close>

text \<open>
  The schema's guarantees on the slots table: \<open>id\<close> is an AUTOINCREMENT primary key
  (unique, never 0) and a shelf is populated once, so a position names one slot.
\<close>

definition wf_slots :: "db \<Rightarrow> bool" where
  "wf_slots d = (distinct (map sid (slots d)) \<and> list_all (\<lambda>s. sid s \<noteq> 0) (slots d)
     \<and> distinct (map (\<lambda>s. (shelf s, row s, col s)) (slots d)))"

text \<open>
  The schema's \<open>CHECK (basket_size IN ('small','large'))\<close>: a stored basket size is
  NULL, "small" or "large".
\<close>

definition wf_baskets :: "db \<Rightarrow> bool" where
  "wf_baskets d =
     list_all (\<lambda>p. basket_size p = None \<or> basket_size p = Some ''small'' \<or> basket_size p = Some ''large'')
       (prescriptions d)"

text \<open>A large-basket prescription is one whose stored basket size is "large".\<close>

definition is_large :: "prescription \<Rightarrow> bool" where
  "is_large p = (basket_size p = Some ''large'')"

text \<open>The test the code makes on a prescription row: \<open>(basket or "small").lower() == "large"\<close>.\<close>

definition norm_large :: "prescription \<Rightarrow> bool" where
  "norm_large p = (basket_norm (basket_size p) = ''large'')"

definition next_col_neighbor :: "slot \<Rightarrow> slot \<Rightarrow> bool" where
  "next_col_neighbor s1 s2 = (shelf s2 = shelf s1 \<and> row s2 = row s1 \<and> col s2 = col s1 + 1)"

text \<open>
  The ledger invariant in the specification's words: a slot id is to be occupied when a
  live prescription references it, or when it is the next-column neighbour of the slot
  that a large-basket prescription references.
\<close>

definition should_be_occupied :: "db \<Rightarrow> int \<Rightarrow> bool" where
  "should_be_occupied d i =
     ((\<exists>p \<in> set (prescriptions d). slot_id p = Some i) \<or>
      (\<exists>p \<in> set (prescriptions d). \<exists>s1 \<in> set (slots d). \<exists>s2 \<in> set (slots d).
          is_large p \<and> slot_id p = Some (sid s1) \<and> next_col_neighbor s1 s2 \<and> sid s2 = i))"

text \<open>The contents of \<open>seen\<close> after the collecting loop, as a set.\<close>

definition seen_ids :: "db \<Rightarrow> prescription list \<Rightarrow> int set" where
  "seen_ids d ps =
     {s. s \<noteq> 0 \<and> (\<exists>p\<in>set ps. slot_id p = Some s)} \<union>
     {q. q \<noteq> 0 \<and> (\<exists>p\<in>set ps. \<exists>s. s \<noteq> 0 \<and> slot_id p = Some s \<and> norm_large p
            \<and> next_col_partner_slot_id d s = Some q)}"

section \<open>Example stores\<close>

text \<open>
  Shelf F with a large basket at F-A1, small baskets at F-A4 and F-A7 (one with a NULL
  basket size) and occupancy flags that have drifted.
\<close>

definition reconcile_db :: db where
  "reconcile_db =
     \<lparr>patients = [\<lparr>pat_id = 1, pat_name = ''Ann Lee''\<rparr>],
      prescriptions = [\<lparr>presc_id = 1, patient_id = 1, medication = ''aspirin'', basket_size = Some ''large'', slot_id = Some 1\<rparr>,
                       \<lparr>presc_id = 2, patient_id = 1, medication = ''statin'', basket_size = Some ''small'', slot_id = None\<rparr>,
                       \<lparr>presc_id = 3, patient_id = 1, medication = ''zinc'', basket_size = Some ''small'', slot_id = Some 4\<rparr>,
                       \<lparr>presc_id = 4, patient_id = 1, medication = ''iron'', basket_size = None, slot_id = Some 7\<rparr>],
      shelves = [\<lparr>name = ''F'', rows_count = 1, cols_count = 8\<rparr>],
      slots = [\<lparr>sid = 1, shelf = ''F'', row = ''A'', col = 1, occupied = 0\<rparr>,
               \<lparr>sid = 2, shelf = ''F'', row = ''A'', col = 2, occupied = 0\<rparr>,
               \<lparr>sid = 3, shelf = ''F'', row = ''A'', col = 3, occupied = 1\<rparr>,
               \<lparr>sid = 4, shelf = ''F'', row = ''A'', col = 4, occupied = 0\<rparr>,
               \<lparr>sid = 5, shelf = ''F'', row = ''A'', col = 5, occupied = 1\<rparr>,
               \<lparr>sid = 6, shelf = ''F'', row = ''A'', col = 6, occupied = 0\<rparr>,
               \<lparr>sid = 7, shelf = ''F'', row = ''A'', col = 7, occupied = 0\<rparr>,
               \<lparr>sid = 8, shelf = ''F'', row = ''A'', col = 8, occupied = 0\<rparr>],
      slots_seq = 8,
      letter_sections = []\<rparr>"

text \<open>Two prescriptions of one household share the family bin F-A1.\<close>

definition family_p1 :: prescription where
  "family_p1 = \<lparr>presc_id = 1, patient_id = 1, medication = ''aspirin'', basket_size = Some ''small'', slot_id = Some 1\<rparr>"

definition family_p2 :: prescription where
  "family_p2 = \<lparr>presc_id = 2, patient_id = 2, medication = ''statin'', basket_size = Some ''small'', slot_id = Some 1\<rparr>"

definition family_db :: db where
  "family_db =
     \<lparr>patients = [\<lparr>pat_id = 1, pat_name = ''Ann Lee''\<rparr>, \<lparr>pat_id = 2, pat_name = ''Bob Lee''\<rparr>],
      prescriptions = [family_p1, family_p2],
      shelves = [\<lparr>name = ''F'', rows_count = 1, cols_count = 2\<rparr>],
      slots = [\<lparr>sid = 1, shelf = ''F'', row = ''A'', col = 1, occupied = 1\<rparr>,
               \<lparr>sid = 2, shelf = ''F'', row = ''A'', col = 2, occupied = 0\<rparr>],
      slots_seq = 2,
      letter_sections = []\<rparr>"

text \<open>
  Letter S is filed on shelf F from B5 to D15; the five slots are the ones of the
  boundary example (F-B5, F-D15, F-B4, F-D16, F-C1).
\<close>

definition boundary_db :: db where
  "boundary_db =
     \<lparr>patients = [],
      prescriptions = [],
      shelves = [\<lparr>name = ''F'', rows_count = 4, cols_count = 16\<rparr>],
      slots = [\<lparr>sid = 1, shelf = ''F'', row = ''B'', col = 5, occupied = 0\<rparr>,
               \<lparr>sid = 2, shelf = ''F'', row = ''D'', col = 15, occupied = 0\<rparr>,
               \<lparr>sid = 3, shelf = ''F'', row = ''B'', col = 4, occupied = 0\<rparr>,
               \<lparr>sid = 4, shelf = ''F'', row = ''D'', col = 16, occupied = 0\<rparr>,
               \<lparr>sid = 5, shelf = ''F'', row = ''C'', col = 1, occupied = 0\<rparr>],
      slots_seq = 5,
      letter_sections = [\<lparr>letter = ''S'', ls_shelf = Some ''F'', lower_bound = Some ''B5'', upper_bound = Some ''D15''\<rparr>,
                         \<lparr>letter = ''Overflow'', ls_shelf = Some '''', lower_bound = Some '''', upper_bound = Some ''''\<rparr>]\<rparr>"


section \<open>Specification-level notions for the section search\<close>

text \<open>
  A position names at most one slot (the specification's address invariant; a shelf is
  populated once and renamed or deleted together with its slots).
\<close>

definition unique_positions :: "db \<Rightarrow> bool" where
  "unique_positions d = distinct (map (\<lambda>s. (shelf s, row s, col s)) (slots d))"

text \<open>
  In the words of the specification: slot \<open>s\<close> is the slot at position (shelf, row,
  column); a free fit at a position is a free slot there, together with a free slot one
  column to the right on the same shelf and row when the basket is large.
\<close>

definition slot_at :: "db \<Rightarrow> string \<Rightarrow> char \<Rightarrow> int \<Rightarrow> slot \<Rightarrow> bool" where
  "slot_at d sh r c s = (s \<in> set (slots d) \<and> shelf s = sh \<and> row s = [r] \<and> col s = c)"

definition fits :: "db \<Rightarrow> string \<Rightarrow> string \<Rightarrow> char \<Rightarrow> int \<Rightarrow> int list \<Rightarrow> bool" where
  "fits d sh basket r c ids =
     (\<exists>s1. slot_at d sh r c s1 \<and> occupied s1 = 0 \<and>
        (if basket = ''large''
         then (\<exists>s2. slot_at d sh r (c + 1) s2 \<and> occupied s2 = 0 \<and> ids = [sid s1, sid s2])
         else ids = [sid s1]))"

text \<open>
  The positions the search examines: rows from the start row to the end row, columns from
  the start column on the start row and from 1 on the others, up to the end column on the
  end row and up to the cap of 10000 on the others. \<open>in_section\<close> is the bound as the
  specification words it, without the cap. \<open>before\<close> is the row-major order.
\<close>

definition scanned :: "char \<Rightarrow> int \<Rightarrow> char \<Rightarrow> int \<Rightarrow> char \<Rightarrow> int \<Rightarrow> bool" where
  "scanned sr sc er ec r c =
     (sr \<le> r \<and> r \<le> er \<and> (if r = sr then sc else 1) \<le> c \<and> c \<le> (if r = er then ec else 10000))"

definition in_section :: "char \<Rightarrow> int \<Rightarrow> char \<Rightarrow> int \<Rightarrow> char \<Rightarrow> int \<Rightarrow> bool" where
  "in_section sr sc er ec r c =
     (sr \<le> r \<and> r \<le> er \<and> (if r = sr then sc else 1) \<le> c \<and> (if r = er then c \<le> ec else True))"

definition before :: "char \<Rightarrow> int \<Rightarrow> char \<Rightarrow> int \<Rightarrow> bool" where
  "before r' c' r c = (r' < r \<or> (r' = r \<and> c' < c))"

text \<open>Auxiliary forms of the loop bodies, used in the proofs only.\<close>

definition free_slot_at :: "db \<Rightarrow> string \<Rightarrow> char \<Rightarrow> int \<Rightarrow> int option" where
  "free_slot_at d sh r c =
     (case get_slot_by_position d sh [r] c of
        None \<Rightarrow> None
      | Some (i, occ) \<Rightarrow> if occ = 0 then Some i else None)"

definition free_fit :: "db \<Rightarrow> string \<Rightarrow> string \<Rightarrow> char \<Rightarrow> int \<Rightarrow> int list option" where
  "free_fit d sh basket r c =
     (case free_slot_at d sh r c of
        None \<Rightarrow> None
      | Some i \<Rightarrow>
          if basket = ''large'' then
            (case free_slot_at d sh r (c + 1) of None \<Rightarrow> None | Some j \<Rightarrow> Some [i, j])
          else Some [i])"

definition scan_row :: "db \<Rightarrow> string \<Rightarrow> char \<Rightarrow> int \<Rightarrow> char \<Rightarrow> int \<Rightarrow> string \<Rightarrow> char \<Rightarrow> int list option" where
  "scan_row d sh sr sc er ec basket r =
     (case max_col d sh [r] of
        None \<Rightarrow> None
      | Some m \<Rightarrow>
          if m = 0 then None
          else scan_cols d sh [r] basket [(if r = sr then sc else 1) .. min (if r = er then ec else 10000) m])"

text \<open>
  Shelf F with 2 rows and 3 columns, F-A1 to F-A3 and F-B1 occupied; letter A is filed
  from A1 to B3.
\<close>

definition scenario_db :: db where
  "scenario_db =
     \<lparr>patients = [], prescriptions = [],
      shelves = [\<lparr>name = ''F'', rows_count = 2, cols_count = 3\<rparr>],
      slots = [\<lparr>sid = 1, shelf = ''F'', row = ''A'', col = 1, occupied = 1\<rparr>,
               \<lparr>sid = 2, shelf = ''F'', row = ''A'', col = 2, occupied = 1\<rparr>,
               \<lparr>sid = 3, shelf = ''F'', row = ''A'', col = 3, occupied = 1\<rparr>,
               \<lparr>sid = 4, shelf = ''F'', row = ''B'', col = 1, occupied = 1\<rparr>,
               \<lparr>sid = 5, shelf = ''F'', row = ''B'', col = 2, occupied = 0\<rparr>,
               \<lparr>sid = 6, shelf = ''F'', row = ''B'', col = 3, occupied = 0\<rparr>],
      slots_seq = 6,
      letter_sections = [\<lparr>letter = ''A'', ls_shelf = Some ''F'', lower_bound = Some ''A1'', upper_bound = Some ''B3''\<rparr>]\<rparr>"

text \<open>
  Shelf F with 2 rows and 10001 columns, as \<open>add_shelf\<close> populates it. Small baskets sit
  in F-A1 to F-A10000 and in F-B1; F-A10001 and the rest of row B are free. Letter A is
  filed from A1 to B1.
\<close>

definition cap_db :: db where
  "cap_db =
     \<lparr>patients = [\<lparr>pat_id = 1, pat_name = ''ANN ADAMS''\<rparr>],
      prescriptions =
        map (\<lambda>c. \<lparr>presc_id = c, patient_id = 1, medication = ''m'', basket_size = Some ''small'',
                     slot_id = Some c\<rparr>) [1..10000]
        @ [\<lparr>presc_id = 10001, patient_id = 1, medication = ''m'', basket_size = Some ''small'',
             slot_id = Some 10002\<rparr>],
      shelves = [\<lparr>name = ''F'', rows_count = 2, cols_count = 10001\<rparr>],
      slots = map (\<lambda>c. \<lparr>sid = c, shelf = ''F'', row = ''A'', col = c,
                          occupied = (if c \<le> 10000 then 1 else 0)\<rparr>) [1..10001]
            @ map (\<lambda>c. \<lparr>sid = 10001 + c, shelf = ''F'', row = ''B'', col = c,
                          occupied = (if c = 1 then 1 else 0)\<rparr>) [1..10001],
      slots_seq = 20002,
      letter_sections = [\<lparr>letter = ''A'', ls_shelf = Some ''F'', lower_bound = Some ''A1'', upper_bound = Some ''B1''\<rparr>]\<rparr>"

text \<open>Shelf F with one row; letter A is filed from A1 to A2 and F-A1 is occupied.\<close>

definition edge_db :: db where
  "edge_db =
     \<lparr>patients = [], prescriptions = [],
      shelves = [\<lparr>name = ''F'', rows_count = 1, cols_count = 4\<rparr>],
      slots = [\<lparr>sid = 1, shelf = ''F'', row = ''A'', col = 1, occupied = 1\<rparr>,
               \<lparr>sid = 2, shelf = ''F'', row = ''A'', col = 2, occupied = 0\<rparr>,
               \<lparr>sid = 3, shelf = ''F'', row = ''A'', col = 3, occupied = 0\<rparr>,
               \<lparr>sid = 4, shelf = ''F'', row = ''A'', col = 4, occupied = 0\<rparr>],
      slots_seq = 4,
      letter_sections = [\<lparr>letter = ''A'', ls_shelf = Some ''F'', lower_bound = Some ''A1'', upper_bound = Some ''A2''\<rparr>]\<rparr>"

text \<open>
  Letter A is filed on shelf F, A1 to A2, both slots holding a small basket; Overflow is
  filed on shelf L, A1 to A2, both slots free.
\<close>

definition overflow_db :: db where
  "overflow_db =
     \<lparr>patients = [\<lparr>pat_id = 1, pat_name = ''ANN ADAMS''\<rparr>],
      prescriptions =
        [\<lparr>presc_id = 1, patient_id = 1, medication = ''aspirin'', basket_size = Some ''small'', slot_id = Some 1\<rparr>,
         \<lparr>presc_id = 2, patient_id = 1, medication = ''statin'', basket_size = Some ''small'', slot_id = Some 2\<rparr>],
      shelves = [\<lparr>name = ''F'', rows_count = 1, cols_count = 2\<rparr>,
                 \<lparr>name = ''L'', rows_count = 1, cols_count = 2\<rparr>],
      slots = [\<lparr>sid = 1, shelf = ''F'', row = ''A'', col = 1, occupied = 1\<rparr>,
               \<lparr>sid = 2, shelf = ''F'', row = ''A'', col = 2, occupied = 1\<rparr>,
               \<lparr>sid = 3, shelf = ''L'', row = ''A'', col = 1, occupied = 0\<rparr>,
               \<lparr>sid = 4, shelf = ''L'', row = ''A'', col = 2, occupied = 0\<rparr>],
      slots_seq = 4,
      letter_sections =
        [\<lparr>letter = ''A'', ls_shelf = Some ''F'', lower_bound = Some ''A1'', upper_bound = Some ''A2''\<rparr>,
         \<lparr>letter = ''Overflow'', ls_shelf = Some ''L'', lower_bound = Some ''A1'', upper_bound = Some ''A2''\<rparr>]\<rparr>"

text \<open>
  Letter A and Overflow adjoin on the one-row shelf F: Overflow is filed A1 to A2, letter
  A from A3 to A4. Small baskets sit in F-A1 and F-A4; F-A2 and F-A3 are free.
\<close>

definition adjoining_db :: db where
  "adjoining_db =
     \<lparr>patients = [\<lparr>pat_id = 1, pat_name = ''ANN ADAMS''\<rparr>],
      prescriptions =
        [\<lparr>presc_id = 1, patient_id = 1, medication = ''aspirin'', basket_size = Some ''small'', slot_id = Some 1\<rparr>,
         \<lparr>presc_id = 2, patient_id = 1, medication = ''statin'', basket_size = Some ''small'', slot_id = Some 4\<rparr>],
      shelves = [\<lparr>name = ''F'', rows_count = 1, cols_count = 4\<rparr>],
      slots = [\<lparr>sid = 1, shelf = ''F'', row = ''A'', col = 1, occupied = 1\<rparr>,
               \<lparr>sid = 2, shelf = ''F'', row = ''A'', col = 2, occupied = 0\<rparr>,
               \<lparr>sid = 3, shelf = ''F'', row = ''A'', col = 3, occupied = 0\<rparr>,
               \<lparr>sid = 4, shelf = ''F'', row = ''A'', col = 4, occupied = 1\<rparr>],
      slots_seq = 4,
      letter_sections =
        [\<lparr>letter = ''A'', ls_shelf = Some ''F'', lower_bound = Some ''A3'', upper_bound = Some ''A4''\<rparr>,
         \<lparr>letter = ''Overflow'', ls_shelf = Some ''F'', lower_bound = Some ''A1'', upper_bound = Some ''A2''\<rparr>]\<rparr>"

section \<open>Properties\<close>

subsection \<open>Lookups and the occupancy ledger\<close>

lemma find_distinct_key:
  "distinct (map f xs) \<Longrightarrow> x \<in> set xs \<Longrightarrow> find (\<lambda>y. f y = f x) xs = Some x"
  by (induction xs) (auto simp: rev_image_eqI)

lemma find_SomeD: "find P xs = Some x \<Longrightarrow> x \<in> set xs \<and> P x"
  by (induction xs) (auto split: if_splits)

lemma fold_set_occupied_slots:
  "slots (fold (set_occupied v) ids d) =
     map (\<lambda>s. if sid s \<in> set ids then s\<lparr>occupied := v\<rparr> else s) (slots d)"
  by (induction ids arbitrary: d) (auto simp: set_occupied_def)

lemma fold_set_occupied_other:
  "prescriptions (fold (set_occupied v) ids d) = prescriptions d"
  "patients (fold (set_occupied v) ids d) = patients d"
  "shelves (fold (set_occupied v) ids d) = shelves d"
  "slots_seq (fold (set_occupied v) ids d) = slots_seq d"
  "letter_sections (fold (set_occupied v) ids d) = letter_sections d"
  by (induction ids arbitrary: d; simp add: set_occupied_def)+

lemma seen_ids_Nil: "seen_ids d [] = {}"
  by (simp add: seen_ids_def)

lemma seen_ids_Cons:
  "seen_ids d (p # ps) =
     (case slot_id p of None \<Rightarrow> {} | Some s \<Rightarrow>
        if s = 0 then {} else insert s
          (if norm_large p then (case next_col_partner_slot_id d s of None \<Rightarrow> {}
               | Some q \<Rightarrow> if q \<noteq> 0 then {q} else {}) else {}))
     \<union> seen_ids d ps"
  by (auto simp: seen_ids_def split: option.splits)

lemma set_collect_seen: "set (collect_seen d ps seen) = set seen \<union> seen_ids d ps"
proof (induction ps arbitrary: seen)
  case Nil
  show ?case by (simp add: seen_ids_Nil)
next
  case (Cons p ps)
  show ?case
    by (cases "slot_id p")
       (auto simp: Cons.IH seen_ids_Cons norm_large_def Let_def split: option.splits)
qed

lemma repair_slots:
  "slots (repair_slot_occupancy d) =
     map (\<lambda>s. s\<lparr>occupied := (if sid s \<in> seen_ids d (prescriptions d) then 1 else 0)\<rparr>) (slots d)"
  by (simp add: repair_slot_occupancy_def Let_def fold_set_occupied_slots set_collect_seen
      clear_all_occupied_def)

lemma repair_other:
  "prescriptions (repair_slot_occupancy d) = prescriptions d"
  "patients (repair_slot_occupancy d) = patients d"
  "shelves (repair_slot_occupancy d) = shelves d"
  "slots_seq (repair_slot_occupancy d) = slots_seq d"
  "letter_sections (repair_slot_occupancy d) = letter_sections d"
  by (simp_all add: repair_slot_occupancy_def Let_def fold_set_occupied_other clear_all_occupied_def)

lemma find_map_occ:
  "(\<And>s. P (g s) = P s) \<Longrightarrow> find P (map g xs) = map_option g (find P xs)"
  by (induction xs) auto

lemma partner_occ_indep:
  assumes "slots d' = map (\<lambda>s. s\<lparr>occupied := h s\<rparr>) (slots d)"
  shows "next_col_partner_slot_id d' i = next_col_partner_slot_id d i"
proof -
  have a: "slot_id_to_tuple d' i = slot_id_to_tuple d i"
    by (simp add: slot_id_to_tuple_def assms find_map_occ option.map_comp comp_def)
  have b: "map_option fst (get_slot_by_position d' sh r c) = map_option fst (get_slot_by_position d sh r c)" for sh r c
    by (simp add: get_slot_by_position_def assms find_map_occ option.map_comp comp_def)
  show ?thesis
    by (simp add: next_col_partner_slot_id_def a b split: option.splits)
qed

lemma seen_ids_occ_indep:
  assumes "slots d' = map (\<lambda>s. s\<lparr>occupied := h s\<rparr>) (slots d)"
  shows "seen_ids d' ps = seen_ids d ps"
  by (simp add: seen_ids_def partner_occ_indep[OF assms])

lemma repair_idem: "repair_slot_occupancy (repair_slot_occupancy d) = repair_slot_occupancy d"
proof -
  let ?d1 = "repair_slot_occupancy d"
  have s: "seen_ids ?d1 (prescriptions ?d1) = seen_ids d (prescriptions d)"
    by (simp add: repair_other seen_ids_occ_indep[OF repair_slots])
  have "slots (repair_slot_occupancy ?d1) = slots ?d1"
    by (simp add: repair_slots[of ?d1] s) (simp add: repair_slots comp_def)
  then show ?thesis
    by (intro db.equality) (simp_all add: repair_other)
qed

lemma partner_Some_iff:
  assumes "wf_slots d" "s1 \<in> set (slots d)"
  shows "next_col_partner_slot_id d (sid s1) = Some q \<longleftrightarrow>
         (\<exists>s2 \<in> set (slots d). next_col_neighbor s1 s2 \<and> sid s2 = q)"
proof -
  from assms have t: "slot_id_to_tuple d (sid s1) = Some (shelf s1, row s1, col s1)"
    by (simp add: slot_id_to_tuple_def wf_slots_def find_distinct_key)
  show ?thesis
  proof
    assume "next_col_partner_slot_id d (sid s1) = Some q"
    then obtain s2 where "find (\<lambda>s. shelf s = shelf s1 \<and> row s = row s1 \<and> col s = col s1 + 1) (slots d) = Some s2"
      "sid s2 = q"
      by (auto simp: next_col_partner_slot_id_def t get_slot_by_position_def)
    then show "\<exists>s2 \<in> set (slots d). next_col_neighbor s1 s2 \<and> sid s2 = q"
      by (auto dest!: find_SomeD simp: next_col_neighbor_def)
  next
    assume "\<exists>s2 \<in> set (slots d). next_col_neighbor s1 s2 \<and> sid s2 = q"
    then obtain s2 where s2: "s2 \<in> set (slots d)" "next_col_neighbor s1 s2" "sid s2 = q" by blast
    from assms(1) s2(1) have "find (\<lambda>y. (shelf y, row y, col y) = (shelf s2, row s2, col s2)) (slots d) = Some s2"
      unfolding wf_slots_def by (intro find_distinct_key) auto
    with s2 show "next_col_partner_slot_id d (sid s1) = Some q"
      by (simp add: next_col_partner_slot_id_def t get_slot_by_position_def next_col_neighbor_def)
  qed
qed

lemma norm_large_iff:
  "basket_size p = None \<or> basket_size p = Some ''small'' \<or> basket_size p = Some ''large'' \<Longrightarrow>
   norm_large p = is_large p"
  by (auto simp: norm_large_def is_large_def basket_norm_def py_lower_def lower_char_def is_upper_def)

lemma seen_ids_spec:
  assumes "wf_slots d" "s \<in> set (slots d)" "wf_baskets d"
  shows "sid s \<in> seen_ids d (prescriptions d) \<longleftrightarrow> should_be_occupied d (sid s)"
proof -
  have nz: "\<And>x. x \<in> set (slots d) \<Longrightarrow> sid x \<noteq> 0"
    using assms(1) by (auto simp: wf_slots_def list_all_iff)
  have lg: "\<And>p. p \<in> set (prescriptions d) \<Longrightarrow> norm_large p = is_large p"
    using assms(3) by (intro norm_large_iff) (auto simp: wf_baskets_def list_all_iff)
  show ?thesis
  proof
    assume "sid s \<in> seen_ids d (prescriptions d)"
    then consider (a) "\<exists>p\<in>set (prescriptions d). slot_id p = Some (sid s)"
      | (b) p i where "p \<in> set (prescriptions d)" "i \<noteq> 0" "slot_id p = Some i" "is_large p"
          "next_col_partner_slot_id d i = Some (sid s)"
      using lg by (auto simp: seen_ids_def)
    then show "should_be_occupied d (sid s)"
    proof cases
      case a then show ?thesis by (simp add: should_be_occupied_def)
    next
      case b
      from b(5) obtain s1 where s1: "s1 \<in> set (slots d)" "sid s1 = i"
        by (auto simp: next_col_partner_slot_id_def slot_id_to_tuple_def
            split: option.splits dest!: find_SomeD)
      from b(5) s1(2) have "next_col_partner_slot_id d (sid s1) = Some (sid s)" by simp
      then have "\<exists>s2 \<in> set (slots d). next_col_neighbor s1 s2 \<and> sid s2 = sid s"
        by (simp only: partner_Some_iff[OF assms(1) s1(1)])
      with b s1 show ?thesis unfolding should_be_occupied_def by blast
    qed
  next
    assume "should_be_occupied d (sid s)"
    then consider (a) "\<exists>p\<in>set (prescriptions d). slot_id p = Some (sid s)"
      | (b) p s1 s2 where "p \<in> set (prescriptions d)" "s1 \<in> set (slots d)" "s2 \<in> set (slots d)"
          "is_large p" "slot_id p = Some (sid s1)" "next_col_neighbor s1 s2" "sid s2 = sid s"
      unfolding should_be_occupied_def by blast
    then show "sid s \<in> seen_ids d (prescriptions d)"
    proof cases
      case a with nz[OF assms(2)] show ?thesis by (auto simp: seen_ids_def)
    next
      case b
      then have "next_col_partner_slot_id d (sid s1) = Some (sid s)"
        using partner_Some_iff[OF assms(1) b(2)] by auto
      moreover from b(1,4) have "norm_large p" by (simp add: lg)
      ultimately show ?thesis
        using b nz[OF b(2)] nz[OF assms(2)] unfolding seen_ids_def by blast
    qed
  qed
qed

lemma mark_slots_free_slots:
  "slots (mark_slots_free d ids) = map (\<lambda>s. if sid s \<in> set ids then s\<lparr>occupied := 0\<rparr> else s) (slots d)"
  by (simp add: mark_slots_free_def fold_set_occupied_slots)

lemma mark_slots_free_prescriptions: "prescriptions (mark_slots_free d ids) = prescriptions d"
  by (simp add: mark_slots_free_def fold_set_occupied_other)

lemma delete_one_frees:
  assumes "find (\<lambda>x. presc_id x = prid) (prescriptions d) = Some p" "slot_id p = Some i" "i \<noteq> 0"
  shows "\<exists>ids. i \<in> set ids \<and>
           slots (delete_one_prescription d prid) =
             map (\<lambda>s. if sid s \<in> set ids then s\<lparr>occupied := 0\<rparr> else s) (slots d)"
proof (cases "basket_norm (basket_size p) = ''large''")
  case True
  let ?ids = "filter (\<lambda>s. s \<noteq> 0) (expand_slots_for_large_display_or_freeing d prid)"
  have "i \<in> set ?ids"
    using assms True by (auto simp: expand_slots_for_large_display_or_freeing_def split: option.splits)
  moreover have "slots (delete_one_prescription d prid) =
      map (\<lambda>s. if sid s \<in> set ?ids then s\<lparr>occupied := 0\<rparr> else s) (slots d)"
    using assms True by (simp add: delete_one_prescription_def truthy_id_def Let_def mark_slots_free_slots)
  ultimately show ?thesis by blast
next
  case False
  have "slots (delete_one_prescription d prid) =
      map (\<lambda>s. if sid s \<in> set [i] then s\<lparr>occupied := 0\<rparr> else s) (slots d)"
    using assms False by (simp add: delete_one_prescription_def truthy_id_def Let_def mark_slots_free_slots)
  then show ?thesis by (intro exI[of _ "[i]"]) simp
qed

lemma delete_one_prescriptions:
  "find (\<lambda>x. presc_id x = prid) (prescriptions d) = Some p \<Longrightarrow>
   prescriptions (delete_one_prescription d prid) = filter (\<lambda>x. presc_id x \<noteq> prid) (prescriptions d)"
  by (simp add: delete_one_prescription_def Let_def mark_slots_free_prescriptions)

subsection \<open>Reconciliation\<close>

text \<open>
  Claim C1. On a store that satisfies the schema's guarantees (slot ids unique and not 0,
  one slot per position, basket sizes NULL, "small" or "large"), \<open>repair_slot_occupancy\<close>
  leaves every slot record as it was except for its occupied flag, which becomes 1
  exactly for the slots referenced by a live prescription or lying one column to the right
  (same shelf, same row) of a slot referenced by a prescription whose basket size is
  "large", and 0 for every other slot; the prescriptions are untouched, and running the
  repair a second time changes nothing.
\<close>

theorem repair_slot_occupancy_reconciles:
  assumes "wf_slots d" and "wf_baskets d"
  shows "slots (repair_slot_occupancy d) =
           map (\<lambda>s. s\<lparr>occupied := (if should_be_occupied d (sid s) then 1 else 0)\<rparr>) (slots d)
       \<and> prescriptions (repair_slot_occupancy d) = prescriptions d
       \<and> repair_slot_occupancy (repair_slot_occupancy d) = repair_slot_occupancy d"
proof -
  have "slots (repair_slot_occupancy d) =
           map (\<lambda>s. s\<lparr>occupied := (if should_be_occupied d (sid s) then 1 else 0)\<rparr>) (slots d)"
    unfolding repair_slots
    by (rule map_cong[OF refl]) (simp add: seen_ids_spec[OF assms(1) _ assms(2)])
  then show ?thesis by (simp add: repair_other repair_idem)
qed

theorem repair_slot_occupancy_reconciles_witness:
  "wf_slots reconcile_db \<and> wf_baskets reconcile_db
   \<and> map occupied (slots reconcile_db) = [0, 0, 1, 0, 1, 0, 0, 0]
   \<and> map occupied (slots (repair_slot_occupancy reconcile_db)) = [1, 1, 0, 1, 0, 0, 1, 0]
   \<and> map occupied (slots (repair_slot_occupancy (repair_slot_occupancy reconcile_db)))
       = [1, 1, 0, 1, 0, 0, 1, 0]"
proof -
  have wf: "wf_slots reconcile_db" "wf_baskets reconcile_db" by code_simp+
  have a: "map (should_be_occupied reconcile_db) [1, 2, 3, 4, 5, 6, 7, 8]
             = [True, True, False, True, False, False, True, False]"
    by (simp add: should_be_occupied_def reconcile_db_def is_large_def next_col_neighbor_def)
  have b: "map occupied (slots reconcile_db) = [0, 0, 1, 0, 1, 0, 0, 0]"
    "map sid (slots reconcile_db) = [1, 2, 3, 4, 5, 6, 7, 8]"
    by (simp_all add: reconcile_db_def)
  note r = repair_slot_occupancy_reconciles[OF wf]
  from r have "map occupied (slots (repair_slot_occupancy reconcile_db)) =
     map (\<lambda>s. if should_be_occupied reconcile_db (sid s) then 1 else 0) (slots reconcile_db)"
    by (simp add: comp_def if_distrib cong: if_cong)
  also have "\<dots> = map (\<lambda>t. if t then 1 else 0)
                     (map (should_be_occupied reconcile_db) (map sid (slots reconcile_db)))"
    by (simp add: comp_def)
  also have "\<dots> = [1, 1, 0, 1, 0, 0, 1, 0]" unfolding b a by simp
  finally have c: "map occupied (slots (repair_slot_occupancy reconcile_db)) = [1, 1, 0, 1, 0, 0, 1, 0]" .
  from r have "repair_slot_occupancy (repair_slot_occupancy reconcile_db) = repair_slot_occupancy reconcile_db"
    by simp
  with c wf b show ?thesis by simp
qed

subsection \<open>Deleting a prescription that shares a family bin\<close>

text \<open>
  Claim C2, as stated, fails: in \<open>family_db\<close> two prescriptions reference slot 1, which
  is occupied; after deleting prescription 1 the other prescription still references
  slot 1 and the slot is marked free.
\<close>

theorem delete_shared_slot_counterexample:
  "map occupied (slots family_db) = [1, 0]
   \<and> map slot_id (prescriptions family_db) = [Some 1, Some 1]
   \<and> map slot_id (prescriptions (delete_selected_prescriptions family_db [1] True)) = [Some 1]
   \<and> map occupied (slots (delete_selected_prescriptions family_db [1] True)) = [0, 0]"
  by code_simp

text \<open>
  Claim C2, amended. When two live prescriptions reference the same slot, deleting one
  of them keeps the sibling and its reference but marks the shared slot free (the
  release is unconditional, there is no reference count); the next run of
  \<open>repair_slot_occupancy\<close> marks the slot occupied again.
\<close>

theorem delete_shared_slot_released:
  assumes "distinct (map presc_id (prescriptions d))"
    and "p1 \<in> set (prescriptions d)" and "p2 \<in> set (prescriptions d)" and "p1 \<noteq> p2"
    and "slot_id p1 = Some i" and "slot_id p2 = Some i" and "i \<noteq> 0"
    and "s \<in> set (slots d)" and "sid s = i"
  shows "p2 \<in> set (prescriptions (delete_selected_prescriptions d [presc_id p1] True))
       \<and> p1 \<notin> set (prescriptions (delete_selected_prescriptions d [presc_id p1] True))
       \<and> (\<exists>s' \<in> set (slots (delete_selected_prescriptions d [presc_id p1] True)). sid s' = i)
       \<and> (\<forall>s' \<in> set (slots (delete_selected_prescriptions d [presc_id p1] True)). sid s' = i \<longrightarrow> occupied s' = 0)
       \<and> (\<forall>s' \<in> set (slots (repair_slot_occupancy (delete_selected_prescriptions d [presc_id p1] True))).
             sid s' = i \<longrightarrow> occupied s' = 1)"
proof -
  let ?d' = "delete_selected_prescriptions d [presc_id p1] True"
  have d': "?d' = delete_one_prescription d (presc_id p1)"
    by (simp add: delete_selected_prescriptions_def)
  have f: "find (\<lambda>x. presc_id x = presc_id p1) (prescriptions d) = Some p1"
    using assms(1,2) by (rule find_distinct_key)
  have ne: "presc_id p2 \<noteq> presc_id p1"
    using assms(1-4) by (metis distinct_map inj_onD)
  have pr: "prescriptions ?d' = filter (\<lambda>x. presc_id x \<noteq> presc_id p1) (prescriptions d)"
    unfolding d' using f by (rule delete_one_prescriptions)
  from delete_one_frees[OF f assms(5,7)] obtain ids where ids: "i \<in> set ids"
    "slots ?d' = map (\<lambda>s. if sid s \<in> set ids then s\<lparr>occupied := 0\<rparr> else s) (slots d)"
    unfolding d' by blast
  have 1: "p2 \<in> set (prescriptions ?d')" using assms(3) ne by (simp add: pr)
  have 2: "p1 \<notin> set (prescriptions ?d')" by (simp add: pr)
  have "s\<lparr>occupied := 0\<rparr> \<in> set (slots ?d')"
    unfolding ids(2) set_map using ids(1) assms(8,9) by (intro image_eqI[where x = s]) simp_all
  then have 3: "\<exists>s' \<in> set (slots ?d'). sid s' = i"
    using assms(9) by (intro bexI[of _ "s\<lparr>occupied := 0\<rparr>"]) simp_all
  have 4: "\<forall>s' \<in> set (slots ?d'). sid s' = i \<longrightarrow> occupied s' = 0"
    using ids by auto
  have "i \<in> seen_ids ?d' (prescriptions ?d')"
    using 1 assms(6,7) by (auto simp: seen_ids_def)
  then have 5: "\<forall>s' \<in> set (slots (repair_slot_occupancy ?d')). sid s' = i \<longrightarrow> occupied s' = 1"
    by (auto simp: repair_slots)
  from 1 2 3 4 5 show ?thesis by blast
qed

theorem delete_shared_slot_released_witness:
  "distinct (map presc_id (prescriptions family_db))
   \<and> family_p1 \<in> set (prescriptions family_db) \<and> family_p2 \<in> set (prescriptions family_db)
   \<and> family_p2 \<in> set (prescriptions (delete_selected_prescriptions family_db [1] True))
   \<and> list_all (\<lambda>s'. sid s' = 1 \<longrightarrow> occupied s' = 0)
         (slots (delete_selected_prescriptions family_db [1] True))
   \<and> list_all (\<lambda>s'. sid s' = 1 \<longrightarrow> occupied s' = 1)
         (slots (repair_slot_occupancy (delete_selected_prescriptions family_db [1] True)))"
proof -
  let ?s = "\<lparr>sid = 1, shelf = ''F'', row = ''A'', col = 1, occupied = 1\<rparr>"
  have h: "distinct (map presc_id (prescriptions family_db))"
    "family_p1 \<in> set (prescriptions family_db)" "family_p2 \<in> set (prescriptions family_db)"
    "family_p1 \<noteq> family_p2" "slot_id family_p1 = Some 1" "slot_id family_p2 = Some 1" "(1::int) \<noteq> 0"
    "?s \<in> set (slots family_db)" "sid ?s = 1"
    by (simp_all add: family_db_def family_p1_def family_p2_def)
  have i: "presc_id family_p1 = 1" by (simp add: family_p1_def)
  from delete_shared_slot_released[OF h] h(1-3) show ?thesis
    unfolding i list_all_iff by blast
qed

subsection \<open>Section membership\<close>

lemma is_slot_in_letter_section_cases:
  "is_slot_in_letter_section d l i =
    (l = ''Overflow'' \<or> get_letter_section d l = None \<or> slot_id_to_tuple d i = None \<or>
     (\<exists>sh sr sc er ec sname r c.
        get_letter_section d l = Some (sh, sr, sc, er, ec) \<and> slot_id_to_tuple d i = Some (sname, r, c)
        \<and> sname = sh \<and> [sr] \<le> r \<and> r \<le> [er] \<and> (r = [sr] \<longrightarrow> sc \<le> c) \<and> (r = [er] \<longrightarrow> c \<le> ec)))"
  by (auto simp: is_slot_in_letter_section_def split: option.splits)

text \<open>
  Claim C7. \<open>is_slot_in_letter_section\<close> is true for the letter "Overflow", for a letter
  whose section is unconfigured and for a slot id that does not resolve; otherwise it is
  true exactly when the slot is on the section's shelf, its row lies between the start
  row and the end row, and its column respects the start column on the start row and the
  end column on the end row (interior rows have no column bound). For the section B5 to
  D15 on shelf F: F-B5 and F-D15 are inside, F-B4 and F-D16 are not, F-C1 is inside.
\<close>

theorem is_slot_in_letter_section_boundary:
  "(is_slot_in_letter_section d l i =
      (l = ''Overflow'' \<or> get_letter_section d l = None \<or> slot_id_to_tuple d i = None \<or>
       (\<exists>sh sr sc er ec sname r c.
          get_letter_section d l = Some (sh, sr, sc, er, ec) \<and> slot_id_to_tuple d i = Some (sname, r, c)
          \<and> sname = sh \<and> [sr] \<le> r \<and> r \<le> [er] \<and> (r = [sr] \<longrightarrow> sc \<le> c) \<and> (r = [er] \<longrightarrow> c \<le> ec))))
   \<and> get_letter_section boundary_db ''S'' = Some (''F'', CHR ''B'', 5, CHR ''D'', 15)
   \<and> map (slot_id_to_tuple boundary_db) [1, 2, 3, 4, 5] =
       [Some (''F'', ''B'', 5), Some (''F'', ''D'', 15), Some (''F'', ''B'', 4), Some (''F'', ''D'', 16),
        Some (''F'', ''C'', 1)]
   \<and> map (is_slot_in_letter_section boundary_db ''S'') [1, 2, 3, 4, 5] = [True, True, False, False, True]"
proof -
  have e: "get_letter_section boundary_db ''S'' = Some (''F'', CHR ''B'', 5, CHR ''D'', 15)
   \<and> map (slot_id_to_tuple boundary_db) [1, 2, 3, 4, 5] =
       [Some (''F'', ''B'', 5), Some (''F'', ''D'', 15), Some (''F'', ''B'', 4), Some (''F'', ''D'', 16),
        Some (''F'', ''C'', 1)]
   \<and> map (is_slot_in_letter_section boundary_db ''S'') [1, 2, 3, 4, 5] = [True, True, False, False, True]"
    by code_simp
  show ?thesis using is_slot_in_letter_section_cases[of d l i] e by blast
qed

theorem is_slot_in_letter_section_boundary_witness:
  "get_letter_section boundary_db ''S'' = Some (''F'', CHR ''B'', 5, CHR ''D'', 15)
   \<and> slot_id_to_tuple boundary_db 3 = Some (''F'', ''B'', 4)
   \<and> slot_id_to_tuple boundary_db 5 = Some (''F'', ''C'', 1)
   \<and> \<not> is_slot_in_letter_section boundary_db ''S'' 3
   \<and> is_slot_in_letter_section boundary_db ''S'' 5"
proof -
  have h: "get_letter_section boundary_db ''S'' = Some (''F'', CHR ''B'', 5, CHR ''D'', 15)"
    "slot_id_to_tuple boundary_db 3 = Some (''F'', ''B'', 4)"
    "slot_id_to_tuple boundary_db 5 = Some (''F'', ''C'', 1)"
    by code_simp+
  from is_slot_in_letter_section_boundary[of boundary_db "''S''" 3]
  have a: "\<not> is_slot_in_letter_section boundary_db ''S'' 3"
    by (simp add: h)
  from is_slot_in_letter_section_boundary[of boundary_db "''S''" 5]
  have b: "is_slot_in_letter_section boundary_db ''S'' 5"
    by (simp add: h)
  from h a b show ?thesis by simp
qed

subsection \<open>The filing letter of a patient\<close>











subsection \<open>The section search\<close>

lemma scan_cols_Cons:
  "scan_cols d sh [r] b (c # cs) =
     (case free_fit d sh b r c of Some ids \<Rightarrow> Some ids | None \<Rightarrow> scan_cols d sh [r] b cs)"
  by (simp add: free_fit_def free_slot_at_def split: option.splits)

lemma scan_cols_None_iff:
  "scan_cols d sh [r] b cs = None \<longleftrightarrow> (\<forall>c\<in>set cs. free_fit d sh b r c = None)"
  by (induction cs) (auto simp: scan_cols_Cons simp del: scan_cols.simps(2) split: option.splits)

lemma scan_cols_Some_iff:
  "sorted_wrt (<) cs \<Longrightarrow>
   scan_cols d sh [r] b cs = Some ids \<longleftrightarrow>
     (\<exists>c\<in>set cs. free_fit d sh b r c = Some ids \<and> (\<forall>c'\<in>set cs. c' < c \<longrightarrow> free_fit d sh b r c' = None))"
proof (induction cs)
  case Nil
  show ?case by simp
next
  case (Cons c cs)
  then have IH: "scan_cols d sh [r] b cs = Some ids \<longleftrightarrow>
     (\<exists>c\<in>set cs. free_fit d sh b r c = Some ids \<and> (\<forall>c'\<in>set cs. c' < c \<longrightarrow> free_fit d sh b r c' = None))"
    and lt: "\<forall>x\<in>set cs. c < x" by simp_all
  show ?case
  proof (cases "free_fit d sh b r c")
    case None
    then show ?thesis using IH lt by (auto simp: scan_cols_Cons simp del: scan_cols.simps(2))
  next
    case (Some x)
    then show ?thesis using lt
      by (simp add: scan_cols_Cons del: scan_cols.simps(2)) (metis not_less_iff_gr_or_eq option.distinct(1) option.inject)
  qed
qed

lemma scan_rows_Cons:
  "scan_rows d sh sr sc er ec b (r # rs) =
     (case scan_row d sh sr sc er ec b r of
        Some ids \<Rightarrow> Some (ids, sh)
      | None \<Rightarrow> scan_rows d sh sr sc er ec b rs)"
  by (cases "max_col d sh [r]") (simp_all add: scan_row_def Let_def split: option.splits)

lemma scan_rows_None_iff:
  "scan_rows d sh sr sc er ec b rs = None \<longleftrightarrow> (\<forall>r\<in>set rs. scan_row d sh sr sc er ec b r = None)"
  by (induction rs) (auto simp: scan_rows_Cons simp del: scan_rows.simps(2) split: option.splits)

lemma scan_rows_Some_iff:
  "sorted_wrt (<) rs \<Longrightarrow>
   scan_rows d sh sr sc er ec b rs = Some (ids, nm) \<longleftrightarrow>
     (nm = sh \<and> (\<exists>r\<in>set rs. scan_row d sh sr sc er ec b r = Some ids
        \<and> (\<forall>r'\<in>set rs. r' < r \<longrightarrow> scan_row d sh sr sc er ec b r' = None)))"
proof (induction rs)
  case Nil
  show ?case by simp
next
  case (Cons r rs)
  then have IH: "scan_rows d sh sr sc er ec b rs = Some (ids, nm) \<longleftrightarrow>
     (nm = sh \<and> (\<exists>r\<in>set rs. scan_row d sh sr sc er ec b r = Some ids
        \<and> (\<forall>r'\<in>set rs. r' < r \<longrightarrow> scan_row d sh sr sc er ec b r' = None)))"
    and lt: "\<forall>x\<in>set rs. r < x" by simp_all
  show ?case
  proof (cases "scan_row d sh sr sc er ec b r")
    case None
    then show ?thesis using IH lt by (auto simp: scan_rows_Cons simp del: scan_rows.simps(2))
  next
    case (Some x)
    then show ?thesis using lt
      by (simp add: scan_rows_Cons del: scan_rows.simps(2)) (metis not_less_iff_gr_or_eq option.distinct(1) option.inject)
  qed
qed

lemma get_slot_by_position_SomeD:
  "get_slot_by_position d sh r c = Some (i, occ) \<Longrightarrow>
   \<exists>s\<in>set (slots d). sid s = i \<and> occupied s = occ \<and> shelf s = sh \<and> row s = r \<and> col s = c"
  by (auto simp: get_slot_by_position_def dest!: find_SomeD)

lemma fold_max_ge: "(x::int) \<in> set (c # cs) \<Longrightarrow> x \<le> fold max cs c"
proof -
  assume "x \<in> set (c # cs)"
  then have "x \<le> Max (set (c # cs))" by (intro Max_ge) simp_all
  then show ?thesis by (simp only: Max.set_eq_fold)
qed

lemma max_col_ge:
  assumes "s \<in> set (slots d)" "shelf s = sh" "row s = r"
  shows "\<exists>m. max_col d sh r = Some m \<and> col s \<le> m"
proof -
  let ?cs = "map col (filter (\<lambda>s. shelf s = sh \<and> row s = r) (slots d))"
  have "col s \<in> set ?cs" using assms by auto
  then show ?thesis
  proof (cases ?cs)
    case Nil
    with \<open>col s \<in> set ?cs\<close> show ?thesis by simp
  next
    case (Cons c cs)
    with \<open>col s \<in> set ?cs\<close> have "col s \<le> fold max cs c" by (intro fold_max_ge) simp
    with Cons show ?thesis by (simp add: max_col_def)
  qed
qed

lemma free_slot_at_max_col:
  "free_slot_at d sh r c = Some i \<Longrightarrow> \<exists>m. max_col d sh [r] = Some m \<and> c \<le> m"
  by (auto simp: free_slot_at_def split: option.splits if_splits
      dest!: get_slot_by_position_SomeD dest: max_col_ge)

lemma free_fit_max_col:
  "free_fit d sh b r c = Some ids \<Longrightarrow> \<exists>m. max_col d sh [r] = Some m \<and> c \<le> m"
  by (auto simp: free_fit_def split: option.splits if_splits dest: free_slot_at_max_col)

lemma of_char_char_of_small: "n < 256 \<Longrightarrow> (of_char (char_of (n::nat)) :: nat) = n"
  by simp

lemma set_rows_range: "set (rows_range sr er) = {r. sr \<le> r \<and> r \<le> er}"
proof (intro set_eqI iffI)
  fix r assume "r \<in> set (rows_range sr er)"
  then obtain n where n0: "r = char_of n" "n \<in> set [of_char sr ..< of_char er + (1::nat)]"
    by (auto simp: rows_range_def simp del: set_upt)
  from n0(2) have "of_char sr \<le> n \<and> n < of_char er + (1::nat)"
    by (simp only: set_upt atLeastLessThan_iff)
  with n0(1) have n: "r = char_of n" "of_char sr \<le> n" "n \<le> (of_char er :: nat)"
    by simp_all
  from n(3) nat_of_char_less_256[of er] have "n < 256" by (rule le_less_trans)
  with n(1) have "(of_char r :: nat) = n" by simp
  with n show "r \<in> {r. sr \<le> r \<and> r \<le> er}" by (simp add: less_eq_char_def)
next
  fix r assume "r \<in> {r. sr \<le> r \<and> r \<le> er}"
  then have "of_char sr \<le> (of_char r :: nat)" "(of_char r :: nat) \<le> of_char er"
    by (simp_all add: less_eq_char_def)
  then have "(of_char r :: nat) \<in> set [of_char sr ..< of_char er + 1]"
    unfolding set_upt atLeastLessThan_iff by linarith
  then have "char_of (of_char r :: nat) \<in> set (rows_range sr er)"
    unfolding rows_range_def set_map by (rule imageI)
  then show "r \<in> set (rows_range sr er)" by simp
qed

lemma sorted_rows_range: "sorted_wrt (<) (rows_range sr er)"
proof -
  have "\<And>x y. x \<in> set [of_char sr ..< of_char er + (1::nat)] \<Longrightarrow> y \<in> set [of_char sr ..< of_char er + (1::nat)]
      \<Longrightarrow> x < y \<Longrightarrow> (char_of x :: char) < char_of y"
  proof -
    fix x y :: nat
    assume a: "x \<in> set [of_char sr ..< of_char er + (1::nat)]" "y \<in> set [of_char sr ..< of_char er + (1::nat)]" "x < y"
    from a(2) have "of_char sr \<le> y \<and> y < of_char er + (1::nat)"
      by (simp only: set_upt atLeastLessThan_iff)
    then have "y \<le> of_char er" by linarith
    from this nat_of_char_less_256[of er] have "y < 256" by (rule le_less_trans)
    with a(3) have "x < 256" by simp
    with \<open>y < 256\<close> a(3) show "(char_of x :: char) < char_of y" by (simp add: less_char_def)
  qed
  then show ?thesis
    unfolding rows_range_def sorted_wrt_map
    by (intro sorted_wrt_mono_rel[OF _ sorted_wrt_upt]) auto
qed

lemma scan_row_Some_iff:
  assumes "1 \<le> sc"
  shows "scan_row d sh sr sc er ec b r = Some ids \<longleftrightarrow>
     (\<exists>c. (if r = sr then sc else 1) \<le> c \<and> c \<le> (if r = er then ec else 10000)
          \<and> free_fit d sh b r c = Some ids
          \<and> (\<forall>c'. (if r = sr then sc else 1) \<le> c' \<and> c' < c \<longrightarrow> free_fit d sh b r c' = None))"
    (is "?L \<longleftrightarrow> ?R")
proof
  let ?lo = "if r = sr then sc else 1" and ?hi = "if r = er then ec else 10000"
  assume ?L
  then obtain m where m: "max_col d sh [r] = Some m" "m \<noteq> 0"
    "scan_cols d sh [r] b [?lo .. min ?hi m] = Some ids"
    by (auto simp: scan_row_def split: option.splits if_splits)
  from m(3) obtain c where c: "c \<in> set [?lo .. min ?hi m]" "free_fit d sh b r c = Some ids"
    "\<forall>c'\<in>set [?lo .. min ?hi m]. c' < c \<longrightarrow> free_fit d sh b r c' = None"
    by (auto simp: scan_cols_Some_iff[OF sorted_wrt_upto])
  have "\<forall>c'. ?lo \<le> c' \<and> c' < c \<longrightarrow> free_fit d sh b r c' = None"
  proof (intro allI impI)
    fix c' assume "?lo \<le> c' \<and> c' < c"
    with c(1) have "c' \<in> set [?lo .. min ?hi m]" by simp
    with c(3) \<open>?lo \<le> c' \<and> c' < c\<close> show "free_fit d sh b r c' = None" by blast
  qed
  with c show ?R by (intro exI[of _ c]) simp
next
  let ?lo = "if r = sr then sc else 1" and ?hi = "if r = er then ec else 10000"
  assume ?R
  then obtain c where c: "?lo \<le> c" "c \<le> ?hi" "free_fit d sh b r c = Some ids"
    "\<forall>c'. ?lo \<le> c' \<and> c' < c \<longrightarrow> free_fit d sh b r c' = None" by blast
  from free_fit_max_col[OF c(3)] obtain m where m: "max_col d sh [r] = Some m" "c \<le> m" by blast
  from assms c(1) have "1 \<le> c" by (auto split: if_splits)
  with m have m0: "m \<noteq> 0" by simp
  have "c \<in> set [?lo .. min ?hi m]" using c(1,2) m(2) by simp
  moreover have "\<forall>c'\<in>set [?lo .. min ?hi m]. c' < c \<longrightarrow> free_fit d sh b r c' = None"
    using c(4) by simp
  ultimately have "scan_cols d sh [r] b [?lo .. min ?hi m] = Some ids"
    using c(3) by (subst scan_cols_Some_iff[OF sorted_wrt_upto]) blast
  with m m0 show ?L by (simp add: scan_row_def)
qed

lemma scan_row_None_iff:
  assumes "1 \<le> sc"
  shows "scan_row d sh sr sc er ec b r = None \<longleftrightarrow>
     (\<forall>c. (if r = sr then sc else 1) \<le> c \<and> c \<le> (if r = er then ec else 10000)
          \<longrightarrow> free_fit d sh b r c = None)"
    (is "?L \<longleftrightarrow> ?R")
proof
  let ?lo = "if r = sr then sc else 1" and ?hi = "if r = er then ec else 10000"
  assume L: ?L
  show ?R
  proof (intro allI impI)
    fix c assume c: "?lo \<le> c \<and> c \<le> ?hi"
    show "free_fit d sh b r c = None"
    proof (rule ccontr)
      assume "free_fit d sh b r c \<noteq> None"
      then obtain ids where f: "free_fit d sh b r c = Some ids" by blast
      from free_fit_max_col[OF f] obtain m where m: "max_col d sh [r] = Some m" "c \<le> m" by blast
      from assms c have "1 \<le> c" by (auto split: if_splits)
      with m have m0: "m \<noteq> 0" by simp
      from L m m0 have "scan_cols d sh [r] b [?lo .. min ?hi m] = None"
        by (simp add: scan_row_def)
      moreover have "c \<in> set [?lo .. min ?hi m]" using c m(2) by simp
      ultimately have "free_fit d sh b r c = None"
        unfolding scan_cols_None_iff by blast
      with f show False by simp
    qed
  qed
next
  let ?lo = "if r = sr then sc else 1" and ?hi = "if r = er then ec else 10000"
  assume R: ?R
  show ?L
  proof (cases "max_col d sh [r]")
    case None
    then show ?thesis by (simp add: scan_row_def)
  next
    case (Some m)
    have sc0: "scan_cols d sh [r] b [?lo .. min ?hi m] = None"
      unfolding scan_cols_None_iff using R by simp
    show ?thesis unfolding scan_row_def Some option.case sc0 by simp
  qed
qed

lemma find_slot_in_section_None_iff:
  assumes "1 \<le> sc"
  shows "find_slot_in_section d sh sr sc er ec b = None \<longleftrightarrow>
     (\<forall>r c. scanned sr sc er ec r c \<longrightarrow> free_fit d sh b r c = None)"
  unfolding find_slot_in_section_def scan_rows_None_iff set_rows_range
    scan_row_None_iff[OF assms] scanned_def
  by auto

lemma find_slot_in_section_Some_iff:
  assumes "1 \<le> sc"
  shows "find_slot_in_section d sh sr sc er ec b = Some (ids, nm) \<longleftrightarrow>
     (nm = sh \<and> (\<exists>r c. scanned sr sc er ec r c \<and> free_fit d sh b r c = Some ids
        \<and> (\<forall>r' c'. scanned sr sc er ec r' c' \<and> before r' c' r c \<longrightarrow> free_fit d sh b r' c' = None)))"
    (is "?L \<longleftrightarrow> ?R")
proof
  assume ?L
  then have nm: "nm = sh" and "\<exists>r. sr \<le> r \<and> r \<le> er \<and> scan_row d sh sr sc er ec b r = Some ids
        \<and> (\<forall>r'. sr \<le> r' \<and> r' \<le> er \<and> r' < r \<longrightarrow> scan_row d sh sr sc er ec b r' = None)"
    unfolding find_slot_in_section_def scan_rows_Some_iff[OF sorted_rows_range] set_rows_range
    by auto
  then obtain r where r: "sr \<le> r" "r \<le> er" "scan_row d sh sr sc er ec b r = Some ids"
    "\<forall>r'. sr \<le> r' \<and> r' \<le> er \<and> r' < r \<longrightarrow> scan_row d sh sr sc er ec b r' = None" by blast
  from r(3) obtain c where c: "(if r = sr then sc else 1) \<le> c" "c \<le> (if r = er then ec else 10000)"
    "free_fit d sh b r c = Some ids"
    "\<forall>c'. (if r = sr then sc else 1) \<le> c' \<and> c' < c \<longrightarrow> free_fit d sh b r c' = None"
    unfolding scan_row_Some_iff[OF assms] by blast
  have "\<forall>r' c'. scanned sr sc er ec r' c' \<and> before r' c' r c \<longrightarrow> free_fit d sh b r' c' = None"
  proof (intro allI impI)
    fix r' c' assume a: "scanned sr sc er ec r' c' \<and> before r' c' r c"
    then consider (row) "r' < r" | (col) "r' = r" "c' < c" by (auto simp: before_def)
    then show "free_fit d sh b r' c' = None"
    proof cases
      case row
      with a r(4) have "scan_row d sh sr sc er ec b r' = None" by (simp add: scanned_def)
      with a show ?thesis unfolding scan_row_None_iff[OF assms] scanned_def by blast
    next
      case col
      with a c(4) show ?thesis by (simp add: scanned_def)
    qed
  qed
  with nm r c show ?R unfolding scanned_def by blast
next
  assume R: ?R
  then obtain r c where rc: "nm = sh" "scanned sr sc er ec r c" "free_fit d sh b r c = Some ids"
    "\<forall>r' c'. scanned sr sc er ec r' c' \<and> before r' c' r c \<longrightarrow> free_fit d sh b r' c' = None" by blast
  have 1: "scan_row d sh sr sc er ec b r = Some ids"
    unfolding scan_row_Some_iff[OF assms]
  proof (intro exI[of _ c] conjI allI impI)
    fix c' assume "(if r = sr then sc else 1) \<le> c' \<and> c' < c"
    with rc(2) have "scanned sr sc er ec r c' \<and> before r c' r c"
      by (auto simp: scanned_def before_def)
    with rc(4) show "free_fit d sh b r c' = None" by blast
  qed (use rc in \<open>auto simp: scanned_def\<close>)
  have 2: "\<forall>r'\<in>{r. sr \<le> r \<and> r \<le> er}. r' < r \<longrightarrow> scan_row d sh sr sc er ec b r' = None"
  proof (intro ballI impI)
    fix r' assume a: "r' \<in> {r. sr \<le> r \<and> r \<le> er}" "r' < r"
    show "scan_row d sh sr sc er ec b r' = None"
      unfolding scan_row_None_iff[OF assms]
    proof (intro allI impI)
      fix c' assume "(if r' = sr then sc else 1) \<le> c' \<and> c' \<le> (if r' = er then ec else 10000)"
      with a have "scanned sr sc er ec r' c' \<and> before r' c' r c"
        by (auto simp: scanned_def before_def)
      with rc(4) show "free_fit d sh b r' c' = None" by blast
    qed
  qed
  from rc(2) have "r \<in> {r. sr \<le> r \<and> r \<le> er}" by (simp add: scanned_def)
  with 1 2 rc(1) show ?L
    unfolding find_slot_in_section_def scan_rows_Some_iff[OF sorted_rows_range] set_rows_range
    by blast
qed

lemma find_unique:
  assumes "x \<in> set xs" and "P x" and "\<And>y. y \<in> set xs \<Longrightarrow> P y \<Longrightarrow> y = x"
  shows "find P xs = Some x"
proof -
  from assms(1,2) obtain y where y: "find P xs = Some y"
    by (cases "find P xs") (auto simp: find_None_iff)
  then have "y \<in> set xs" "P y" by (auto dest: find_SomeD)
  then have "y = x" by (rule assms(3))
  with y show ?thesis by simp
qed

lemma get_slot_by_position_slots_cong:
  "slots d' = slots d \<Longrightarrow> get_slot_by_position d' sh r c = get_slot_by_position d sh r c"
  by (simp add: get_slot_by_position_def)

lemma max_col_slots_cong:
  "slots d' = slots d \<Longrightarrow> max_col d' sh r = max_col d sh r"
  by (simp add: max_col_def)

lemma scan_cols_slots_cong:
  assumes "slots d' = slots d"
  shows "scan_cols d' sh r b cs = scan_cols d sh r b cs"
proof (induction cs)
  case Nil
  show ?case by simp
next
  case (Cons c cs)
  have g: "\<And>x. get_slot_by_position d' sh r x = get_slot_by_position d sh r x"
    using assms by (rule get_slot_by_position_slots_cong)
  show ?case unfolding scan_cols.simps(2) g Cons.IH by (rule refl)
qed

lemma scan_rows_slots_cong:
  assumes "slots d' = slots d"
  shows "scan_rows d' sh sr sc er ec b rs = scan_rows d sh sr sc er ec b rs"
proof (induction rs)
  case Nil
  show ?case by simp
next
  case (Cons r rs)
  have m: "\<And>x. max_col d' sh x = max_col d sh x"
    using assms by (rule max_col_slots_cong)
  have c: "\<And>x y z. scan_cols d' sh x y z = scan_cols d sh x y z"
    using assms by (rule scan_cols_slots_cong)
  show ?case unfolding scan_rows.simps(2) m c Cons.IH by (rule refl)
qed

lemma find_slot_in_section_slots_cong:
  "slots d' = slots d \<Longrightarrow>
   find_slot_in_section d' sh sr sc er ec b = find_slot_in_section d sh sr sc er ec b"
  unfolding find_slot_in_section_def by (rule scan_rows_slots_cong)

lemma scan_row_fit:
  assumes "scan_row d sh sr sc er ec b r = Some ids"
  shows "\<exists>c. free_fit d sh b r c = Some ids"
proof (cases "max_col d sh [r]")
  case None
  with assms show ?thesis by (simp add: scan_row_def)
next
  case (Some m)
  let ?cs = "[(if r = sr then sc else 1) .. min (if r = er then ec else 10000) m]"
  from assms Some have "scan_cols d sh [r] b ?cs = Some ids"
    by (cases "m = 0") (simp_all add: scan_row_def)
  then have "\<exists>c\<in>set ?cs. free_fit d sh b r c = Some ids
       \<and> (\<forall>c'\<in>set ?cs. c' < c \<longrightarrow> free_fit d sh b r c' = None)"
    by (simp only: scan_cols_Some_iff[OF sorted_wrt_upto])
  then show ?thesis by blast
qed

lemma find_slot_in_section_fit:
  assumes "find_slot_in_section d sh sr sc er ec b = Some (ids, nm)"
  shows "nm = sh \<and> (\<exists>r c. sr \<le> r \<and> r \<le> er \<and> free_fit d sh b r c = Some ids)"
proof -
  from assms have "nm = sh \<and> (\<exists>r\<in>set (rows_range sr er). scan_row d sh sr sc er ec b r = Some ids
        \<and> (\<forall>r'\<in>set (rows_range sr er). r' < r \<longrightarrow> scan_row d sh sr sc er ec b r' = None))"
    unfolding find_slot_in_section_def
    by (simp only: scan_rows_Some_iff[OF sorted_rows_range])
  then obtain r where r: "nm = sh" "r \<in> set (rows_range sr er)"
    "scan_row d sh sr sc er ec b r = Some ids" by blast
  from r(2) have "sr \<le> r" "r \<le> er" by (simp_all add: set_rows_range)
  moreover from scan_row_fit[OF r(3)] obtain c where "free_fit d sh b r c = Some ids" by blast
  ultimately show ?thesis using r(1) by blast
qed

lemma free_slot_atD:
  "free_slot_at d sh r c = Some i \<Longrightarrow>
   get_slot_by_position d sh [r] c = Some (i, 0) \<and>
   (\<exists>s\<in>set (slots d). sid s = i \<and> occupied s = 0 \<and> shelf s = sh \<and> row s = [r] \<and> col s = c)"
  by (auto simp: free_slot_at_def split: option.splits if_splits dest: get_slot_by_position_SomeD)

lemma free_fit_largeD:
  assumes "free_fit d sh ''large'' r c = Some ids"
  shows "\<exists>i j. ids = [i, j] \<and> free_slot_at d sh r c = Some i \<and> free_slot_at d sh r (c + 1) = Some j"
  using assms by (auto simp: free_fit_def split: option.splits)

lemma get_slot_by_position_slot_at:
  assumes "unique_positions d" "slot_at d sh r c s"
  shows "get_slot_by_position d sh [r] c = Some (sid s, occupied s)"
proof -
  from assms have "find (\<lambda>y. (shelf y, row y, col y) = (shelf s, row s, col s)) (slots d) = Some s"
    unfolding unique_positions_def slot_at_def by (intro find_distinct_key) auto
  with assms(2) show ?thesis by (simp add: get_slot_by_position_def slot_at_def)
qed

lemma free_slot_at_iff:
  assumes "unique_positions d"
  shows "free_slot_at d sh r c = Some i \<longleftrightarrow> (\<exists>s. slot_at d sh r c s \<and> occupied s = 0 \<and> sid s = i)"
proof
  assume "free_slot_at d sh r c = Some i"
  from free_slot_atD[OF this] show "\<exists>s. slot_at d sh r c s \<and> occupied s = 0 \<and> sid s = i"
    unfolding slot_at_def by blast
next
  assume "\<exists>s. slot_at d sh r c s \<and> occupied s = 0 \<and> sid s = i"
  then obtain s where s: "slot_at d sh r c s" "occupied s = 0" "sid s = i" by blast
  from get_slot_by_position_slot_at[OF assms s(1)] s(2,3)
  show "free_slot_at d sh r c = Some i" by (simp add: free_slot_at_def)
qed

lemma free_fit_iff_fits:
  assumes "unique_positions d"
  shows "free_fit d sh b r c = Some ids \<longleftrightarrow> fits d sh b r c ids"
proof (cases "b = ''large''")
  case True
  have "free_fit d sh b r c = Some ids \<longleftrightarrow>
      (\<exists>i j. free_slot_at d sh r c = Some i \<and> free_slot_at d sh r (c + 1) = Some j \<and> ids = [i, j])"
    using True by (auto simp: free_fit_def split: option.splits)
  also have "\<dots> \<longleftrightarrow> fits d sh b r c ids"
    unfolding free_slot_at_iff[OF assms] fits_def using True by auto
  finally show ?thesis .
next
  case False
  have "free_fit d sh b r c = Some ids \<longleftrightarrow> (\<exists>i. free_slot_at d sh r c = Some i \<and> ids = [i])"
    using False by (auto simp: free_fit_def split: option.splits)
  also have "\<dots> \<longleftrightarrow> fits d sh b r c ids"
    unfolding free_slot_at_iff[OF assms] fits_def using False by auto
  finally show ?thesis .
qed

lemma free_fit_None_iff_fits:
  assumes "unique_positions d"
  shows "free_fit d sh b r c = None \<longleftrightarrow> (\<forall>ids. \<not> fits d sh b r c ids)"
  using free_fit_iff_fits[OF assms, of sh b r c] by (cases "free_fit d sh b r c") auto

lemma find_first_fit:
  assumes "1 \<le> sc" and "unique_positions d"
  shows "(find_slot_in_section d sh sr sc er ec b = None \<longleftrightarrow>
            (\<forall>r c ids. scanned sr sc er ec r c \<longrightarrow> \<not> fits d sh b r c ids))
       \<and> (find_slot_in_section d sh sr sc er ec b = Some (ids, nm) \<longleftrightarrow>
            (nm = sh \<and> (\<exists>r c. scanned sr sc er ec r c \<and> fits d sh b r c ids
               \<and> (\<forall>r' c' ids'. scanned sr sc er ec r' c' \<and> before r' c' r c \<longrightarrow> \<not> fits d sh b r' c' ids'))))"
  unfolding find_slot_in_section_None_iff[OF assms(1)] find_slot_in_section_Some_iff[OF assms(1)]
    free_fit_None_iff_fits[OF assms(2)] free_fit_iff_fits[OF assms(2)]
  by blast

text \<open>
  Claim C4. Every result of \<open>find_slot_in_section\<close> for a large basket is a pair of slot
  ids \<open>[s1, s2]\<close> of two slots of the table that are both on the searched shelf, on the
  same row, with the column of \<open>s2\<close> one more than that of \<open>s1\<close>, and both unoccupied; they
  are the slots the two lookups of the scan find. A candidate whose next-column neighbour
  is missing or occupied is passed over: the scan of that row goes on with the next
  column.
\<close>

theorem find_slot_in_section_large_adjacent:
  "(find_slot_in_section d sh sr sc er ec ''large'' = Some (ids, nm) \<longrightarrow>
      (\<exists>s1\<in>set (slots d). \<exists>s2\<in>set (slots d).
          ids = [sid s1, sid s2] \<and> nm = sh \<and> shelf s1 = sh \<and> shelf s2 = sh
          \<and> row s2 = row s1 \<and> col s2 = col s1 + 1 \<and> occupied s1 = 0 \<and> occupied s2 = 0
          \<and> get_slot_by_position d sh (row s1) (col s1) = Some (sid s1, 0)
          \<and> get_slot_by_position d sh (row s1) (col s1 + 1) = Some (sid s2, 0)))
   \<and> ((get_slot_by_position d sh r (c + 1) = None
         \<or> (\<exists>j occ. get_slot_by_position d sh r (c + 1) = Some (j, occ) \<and> occ \<noteq> 0)) \<longrightarrow>
       scan_cols d sh r ''large'' (c # cs) = scan_cols d sh r ''large'' cs)"
proof (intro conjI impI)
  assume "find_slot_in_section d sh sr sc er ec ''large'' = Some (ids, nm)"
  from find_slot_in_section_fit[OF this] obtain r0 c0 where
    nm: "nm = sh" and f: "free_fit d sh ''large'' r0 c0 = Some ids" by blast
  from free_fit_largeD[OF f] obtain i j where ij: "ids = [i, j]"
    "free_slot_at d sh r0 c0 = Some i" "free_slot_at d sh r0 (c0 + 1) = Some j" by blast
  from free_slot_atD[OF ij(2)] obtain s1 where s1: "s1 \<in> set (slots d)" "sid s1 = i" "occupied s1 = 0"
    "shelf s1 = sh" "row s1 = [r0]" "col s1 = c0" "get_slot_by_position d sh [r0] c0 = Some (i, 0)" by blast
  from free_slot_atD[OF ij(3)] obtain s2 where s2: "s2 \<in> set (slots d)" "sid s2 = j" "occupied s2 = 0"
    "shelf s2 = sh" "row s2 = [r0]" "col s2 = c0 + 1" "get_slot_by_position d sh [r0] (c0 + 1) = Some (j, 0)" by blast
  show "\<exists>s1\<in>set (slots d). \<exists>s2\<in>set (slots d).
          ids = [sid s1, sid s2] \<and> nm = sh \<and> shelf s1 = sh \<and> shelf s2 = sh
          \<and> row s2 = row s1 \<and> col s2 = col s1 + 1 \<and> occupied s1 = 0 \<and> occupied s2 = 0
          \<and> get_slot_by_position d sh (row s1) (col s1) = Some (sid s1, 0)
          \<and> get_slot_by_position d sh (row s1) (col s1 + 1) = Some (sid s2, 0)"
    using nm ij(1) s1 s2 by (intro bexI[of _ s1] bexI[of _ s2]) simp_all
next
  assume "get_slot_by_position d sh r (c + 1) = None
         \<or> (\<exists>j occ. get_slot_by_position d sh r (c + 1) = Some (j, occ) \<and> occ \<noteq> 0)"
  then show "scan_cols d sh r ''large'' (c # cs) = scan_cols d sh r ''large'' cs"
    by (auto split: option.splits)
qed

theorem find_slot_in_section_large_adjacent_witness:
  "find_slot_in_section scenario_db ''F'' (CHR ''A'') 1 (CHR ''B'') 3 ''large'' = Some ([5, 6], ''F'')
   \<and> (\<exists>s1\<in>set (slots scenario_db). \<exists>s2\<in>set (slots scenario_db).
          [5, 6] = [sid s1, sid s2] \<and> shelf s1 = ''F'' \<and> shelf s2 = ''F''
          \<and> row s2 = row s1 \<and> col s2 = col s1 + 1 \<and> occupied s1 = 0 \<and> occupied s2 = 0)
   \<and> get_slot_by_position scenario_db ''F'' ''B'' 4 = None
   \<and> scan_cols scenario_db ''F'' ''B'' ''large'' [3] = None"
proof -
  have e: "find_slot_in_section scenario_db ''F'' (CHR ''A'') 1 (CHR ''B'') 3 ''large'' = Some ([5, 6], ''F'')"
    by code_simp
  have n: "get_slot_by_position scenario_db ''F'' ''B'' (3 + 1) = None"
    by code_simp
  note t = find_slot_in_section_large_adjacent[of scenario_db "''F''" "CHR ''A''" 1 "CHR ''B''" 3
      "[5, 6]" "''F''" "''B''" 3 "[]"]
  from t e have a: "\<exists>s1\<in>set (slots scenario_db). \<exists>s2\<in>set (slots scenario_db).
          [5, 6] = [sid s1, sid s2] \<and> shelf s1 = ''F'' \<and> shelf s2 = ''F''
          \<and> row s2 = row s1 \<and> col s2 = col s1 + 1 \<and> occupied s1 = 0 \<and> occupied s2 = 0"
    by blast
  from t n have "scan_cols scenario_db ''F'' ''B'' ''large'' [3] = scan_cols scenario_db ''F'' ''B'' ''large'' []"
    by blast
  then have b: "scan_cols scenario_db ''F'' ''B'' ''large'' [3] = None" by simp
  from e a n b show ?thesis by simp
qed


subsection \<open>First fit within a section bound\<close>

lemma cap_db_slots:
  "set (slots cap_db) =
     (\<lambda>c. \<lparr>sid = c, shelf = ''F'', row = ''A'', col = c, occupied = (if c \<le> 10000 then 1 else 0)\<rparr>) ` {1..10001}
   \<union> (\<lambda>c. \<lparr>sid = 10001 + c, shelf = ''F'', row = ''B'', col = c, occupied = (if c = 1 then 1 else 0)\<rparr>) ` {1..10001}"
  unfolding cap_db_def by (simp only: db.simps set_append set_map set_upto)

lemma cap_db_free_slotD:
  assumes "s \<in> set (slots cap_db)" "occupied s = 0"
  shows "(row s = ''A'' \<and> col s = 10001) \<or> (row s = ''B'' \<and> 2 \<le> col s)"
proof -
  from assms(1) consider
    (a) c where "1 \<le> c" "c \<le> 10001"
        "s = \<lparr>sid = c, shelf = ''F'', row = ''A'', col = c, occupied = (if c \<le> 10000 then 1 else 0)\<rparr>"
  | (b) c where "1 \<le> c" "c \<le> 10001"
        "s = \<lparr>sid = 10001 + c, shelf = ''F'', row = ''B'', col = c, occupied = (if c = 1 then 1 else 0)\<rparr>"
    unfolding cap_db_slots by auto
  then show ?thesis
  proof cases
    case a
    with assms(2) have "\<not> c \<le> 10000" by (auto split: if_splits)
    with a show ?thesis by simp
  next
    case b
    with assms(2) have "c \<noteq> 1" by (auto split: if_splits)
    with b show ?thesis by simp
  qed
qed

lemma cap_db_no_fit:
  assumes "scanned (CHR ''A'') 1 (CHR ''B'') 1 r c"
  shows "free_fit cap_db ''F'' ''small'' r c = None"
proof (rule ccontr)
  assume "free_fit cap_db ''F'' ''small'' r c \<noteq> None"
  then obtain i where "free_slot_at cap_db ''F'' r c = Some i"
    by (auto simp: free_fit_def split: option.splits)
  from free_slot_atD[OF this] obtain s where s: "s \<in> set (slots cap_db)" "occupied s = 0"
    "row s = [r]" "col s = c" by blast
  from cap_db_free_slotD[OF s(1,2)] s(3,4) have "(r = CHR ''A'' \<and> c = 10001) \<or> (r = CHR ''B'' \<and> 2 \<le> c)"
    by simp
  with assms show False by (auto simp: scanned_def)
qed

lemma cap_db_letter_sections:
  "letter_sections cap_db
     = [\<lparr>letter = ''A'', ls_shelf = Some ''F'', lower_bound = Some ''A1'', upper_bound = Some ''B1''\<rparr>]"
  unfolding cap_db_def by (simp only: db.simps)

lemma scanned_in_section: "scanned sr sc er ec r c \<Longrightarrow> in_section sr sc er ec r c"
  by (auto simp: scanned_def in_section_def)

text \<open>
  Claim C3, as stated, fails: a row that is not the last row of the bound is not scanned
  over its full populated column range, but only up to column 10000 (\<open>c_end = end_col if
  r == end_row else 10_000\<close>). In \<open>cap_db\<close> letter A is filed on shelf F from A1 to B1, row A
  is populated up to column 10001, and F-A10001 is the only free slot of the bound; it is a
  free fit within the bound, yet the search answers \<open>None\<close>.
\<close>

theorem find_slot_in_section_cap_counterexample:
  "get_letter_section cap_db ''A'' = Some (''F'', CHR ''A'', 1, CHR ''B'', 1)
   \<and> find_slot_in_section cap_db ''F'' (CHR ''A'') 1 (CHR ''B'') 1 ''small'' = None
   \<and> \<lparr>sid = 10001, shelf = ''F'', row = ''A'', col = 10001, occupied = 0\<rparr> \<in> set (slots cap_db)
   \<and> fits cap_db ''F'' ''small'' (CHR ''A'') 10001 [10001]
   \<and> in_section (CHR ''A'') 1 (CHR ''B'') 1 (CHR ''A'') 10001"
proof -
  have a: "get_letter_section cap_db ''A'' = Some (''F'', CHR ''A'', 1, CHR ''B'', 1)"
    unfolding get_letter_section_def cap_db_letter_sections by code_simp
  have b: "find_slot_in_section cap_db ''F'' (CHR ''A'') 1 (CHR ''B'') 1 ''small'' = None"
    unfolding find_slot_in_section_None_iff[OF order_refl] using cap_db_no_fit by blast
  have c: "\<lparr>sid = 10001, shelf = ''F'', row = ''A'', col = 10001, occupied = 0\<rparr> \<in> set (slots cap_db)"
    unfolding cap_db_slots by (intro UnI1 image_eqI[where x = 10001]) simp_all
  then have d: "fits cap_db ''F'' ''small'' (CHR ''A'') 10001 [10001]"
    unfolding fits_def slot_at_def
    by (intro exI[of _ "\<lparr>sid = 10001, shelf = ''F'', row = ''A'', col = 10001, occupied = 0\<rparr>"]) simp
  have e: "in_section (CHR ''A'') 1 (CHR ''B'') 1 (CHR ''A'') 10001"
    by (simp add: in_section_def)
  from a b c d e show ?thesis by blast
qed

text \<open>
  Claim C3, amended. For a start column of at least 1 (every bound \<open>parse_bound\<close> yields)
  and a slot table with one slot per position, the result of \<open>find_slot_in_section\<close>
  depends on the arguments and the slot table only, so repeated calls on one occupancy
  snapshot agree; it is \<open>None\<close> exactly when no examined position holds a free fit, and
  otherwise it is the free fit at the earliest examined position, rows first, then
  columns. The examined positions are: the rows from the start row to the end row; on
  the start row the columns from the start column, on the other rows from 1; on the end
  row the columns up to the end column, on the other rows up to column 10000. Columns
  beyond a row's populated maximum hold no slot and so no fit.
\<close>

theorem find_slot_in_section_first_fit:
  assumes "1 \<le> sc" and "unique_positions d"
  shows "(slots d' = slots d \<longrightarrow>
            find_slot_in_section d' sh sr sc er ec b = find_slot_in_section d sh sr sc er ec b)
       \<and> (find_slot_in_section d sh sr sc er ec b = None \<longleftrightarrow>
            (\<forall>r c ids. scanned sr sc er ec r c \<longrightarrow> \<not> fits d sh b r c ids))
       \<and> (find_slot_in_section d sh sr sc er ec b = Some (ids, nm) \<longleftrightarrow>
            (nm = sh \<and> (\<exists>r c. scanned sr sc er ec r c \<and> fits d sh b r c ids
               \<and> (\<forall>r' c' ids'. scanned sr sc er ec r' c' \<and> before r' c' r c \<longrightarrow> \<not> fits d sh b r' c' ids'))))"
proof (intro conjI impI)
  assume "slots d' = slots d"
  then show "find_slot_in_section d' sh sr sc er ec b = find_slot_in_section d sh sr sc er ec b"
    by (rule find_slot_in_section_slots_cong)
next
  show "find_slot_in_section d sh sr sc er ec b = None \<longleftrightarrow>
            (\<forall>r c ids. scanned sr sc er ec r c \<longrightarrow> \<not> fits d sh b r c ids)"
    using find_first_fit[OF assms] by (rule conjunct1)
next
  show "find_slot_in_section d sh sr sc er ec b = Some (ids, nm) \<longleftrightarrow>
            (nm = sh \<and> (\<exists>r c. scanned sr sc er ec r c \<and> fits d sh b r c ids
               \<and> (\<forall>r' c' ids'. scanned sr sc er ec r' c' \<and> before r' c' r c \<longrightarrow> \<not> fits d sh b r' c' ids')))"
    using find_first_fit[OF assms] by (rule conjunct2)
qed

theorem find_slot_in_section_first_fit_witness:
  "(1::int) \<le> 1 \<and> unique_positions scenario_db
   \<and> find_slot_in_section (scenario_db\<lparr>slots_seq := 9\<rparr>) ''F'' (CHR ''A'') 1 (CHR ''B'') 3 ''small''
       = find_slot_in_section scenario_db ''F'' (CHR ''A'') 1 (CHR ''B'') 3 ''small''
   \<and> find_slot_in_section scenario_db ''F'' (CHR ''A'') 1 (CHR ''B'') 3 ''small'' = Some ([5], ''F'')
   \<and> (\<exists>r c. scanned (CHR ''A'') 1 (CHR ''B'') 3 r c \<and> fits scenario_db ''F'' ''small'' r c [5]
         \<and> \<not> (\<exists>r' c' ids'. scanned (CHR ''A'') 1 (CHR ''B'') 3 r' c' \<and> before r' c' r c
                 \<and> fits scenario_db ''F'' ''small'' r' c' ids'))"
proof -
  have u: "unique_positions scenario_db" by code_simp
  have e: "find_slot_in_section scenario_db ''F'' (CHR ''A'') 1 (CHR ''B'') 3 ''small'' = Some ([5], ''F'')"
    by code_simp
  have s: "slots (scenario_db\<lparr>slots_seq := 9\<rparr>) = slots scenario_db" by simp
  note t = find_slot_in_section_first_fit[OF order_refl u, of "scenario_db\<lparr>slots_seq := 9\<rparr>"
      "''F''" "CHR ''A''" "CHR ''B''" 3 "''small''" "[5]" "''F''"]
  from t s have a: "find_slot_in_section (scenario_db\<lparr>slots_seq := 9\<rparr>) ''F'' (CHR ''A'') 1 (CHR ''B'') 3 ''small''
       = find_slot_in_section scenario_db ''F'' (CHR ''A'') 1 (CHR ''B'') 3 ''small''" by blast
  from t e have b: "\<exists>r c. scanned (CHR ''A'') 1 (CHR ''B'') 3 r c \<and> fits scenario_db ''F'' ''small'' r c [5]
         \<and> \<not> (\<exists>r' c' ids'. scanned (CHR ''A'') 1 (CHR ''B'') 3 r' c' \<and> before r' c' r c
                 \<and> fits scenario_db ''F'' ''small'' r' c' ids')" by blast
  from u a e b show ?thesis by simp
qed

subsection \<open>The partner of a large basket at the end of the bound\<close>

text \<open>
  Claim C10. The adjacency check of \<open>find_slot_in_section\<close> does not clamp the partner
  column to the end column: when the position (end row, end column) belongs to the
  bound and holds a free slot, the shelf has a free slot one column further on that row,
  and no earlier position of the bound holds a free fit for a large basket (in particular
  when no earlier slot of the bound is free), the search returns the pair of these two
  slots, and the second one lies outside the bound.
\<close>

theorem find_slot_in_section_partner_beyond_end_col:
  assumes "1 \<le> sc" and "unique_positions d"
    and "in_section sr sc er ec er ec"
    and "slot_at d sh er ec s1" and "occupied s1 = 0"
    and "slot_at d sh er (ec + 1) s2" and "occupied s2 = 0"
    and "\<forall>r c ids. in_section sr sc er ec r c \<and> before r c er ec \<longrightarrow> \<not> fits d sh ''large'' r c ids"
  shows "find_slot_in_section d sh sr sc er ec ''large'' = Some ([sid s1, sid s2], sh)
     \<and> shelf s2 = sh \<and> row s2 = [er] \<and> col s2 = ec + 1
     \<and> \<not> in_section sr sc er ec er (col s2)"
proof -
  from assms(3) have sc: "scanned sr sc er ec er ec"
    by (auto simp: scanned_def in_section_def)
  from assms(4-7) have f: "fits d sh ''large'' er ec [sid s1, sid s2]"
    unfolding fits_def by auto
  have m: "\<forall>r' c' ids'. scanned sr sc er ec r' c' \<and> before r' c' er ec \<longrightarrow> \<not> fits d sh ''large'' r' c' ids'"
    using assms(8) scanned_in_section by blast
  from sc f m have "find_slot_in_section d sh sr sc er ec ''large'' = Some ([sid s1, sid s2], sh)"
    unfolding conjunct2[OF find_first_fit[OF assms(1,2)]] by blast
  moreover from assms(6) have "shelf s2 = sh" "row s2 = [er]" "col s2 = ec + 1"
    by (simp_all add: slot_at_def)
  moreover have "\<not> in_section sr sc er ec er (ec + 1)" by (simp add: in_section_def)
  ultimately show ?thesis by simp
qed

theorem find_slot_in_section_partner_beyond_end_col_witness:
  "get_letter_section edge_db ''A'' = Some (''F'', CHR ''A'', 1, CHR ''A'', 2)
   \<and> find_slot_in_section edge_db ''F'' (CHR ''A'') 1 (CHR ''A'') 2 ''large'' = Some ([2, 3], ''F'')
   \<and> slot_id_to_tuple edge_db 3 = Some (''F'', ''A'', 3)
   \<and> \<not> in_section (CHR ''A'') 1 (CHR ''A'') 2 (CHR ''A'') 3
   \<and> is_slot_in_letter_section edge_db ''A'' 3 = False"
proof -
  let ?s1 = "\<lparr>sid = 2, shelf = ''F'', row = ''A'', col = 2, occupied = 0\<rparr>"
  let ?s2 = "\<lparr>sid = 3, shelf = ''F'', row = ''A'', col = 3, occupied = 0\<rparr>"
  have u: "unique_positions edge_db" by code_simp
  have i: "in_section (CHR ''A'') 1 (CHR ''A'') 2 (CHR ''A'') 2" by (simp add: in_section_def)
  have s1: "slot_at edge_db ''F'' (CHR ''A'') 2 ?s1" by (simp add: slot_at_def edge_db_def)
  have s2: "slot_at edge_db ''F'' (CHR ''A'') (2 + 1) ?s2" by (simp add: slot_at_def edge_db_def)
  have n: "\<forall>r c ids. in_section (CHR ''A'') 1 (CHR ''A'') 2 r c \<and> before r c (CHR ''A'') 2
             \<longrightarrow> \<not> fits edge_db ''F'' ''large'' r c ids"
  proof (intro allI impI)
    fix r c ids
    assume "in_section (CHR ''A'') 1 (CHR ''A'') 2 r c \<and> before r c (CHR ''A'') 2"
    then have rc: "r = CHR ''A''" "c = 1" by (auto simp: in_section_def before_def)
    show "\<not> fits edge_db ''F'' ''large'' r c ids"
      unfolding rc fits_def slot_at_def by (auto simp: edge_db_def)
  qed
  from find_slot_in_section_partner_beyond_end_col[OF order_refl u i s1 _ s2 _ n]
  have r: "find_slot_in_section edge_db ''F'' (CHR ''A'') 1 (CHR ''A'') 2 ''large'' = Some ([2, 3], ''F'')"
    and o: "\<not> in_section (CHR ''A'') 1 (CHR ''A'') 2 (CHR ''A'') 3" by simp_all
  have g: "get_letter_section edge_db ''A'' = Some (''F'', CHR ''A'', 1, CHR ''A'', 2)" by code_simp
  have t: "slot_id_to_tuple edge_db 3 = Some (''F'', ''A'', 3)" by code_simp
  have m: "is_slot_in_letter_section edge_db ''A'' 3 = False" by code_simp
  from g r t o m show ?thesis by simp
qed

subsection \<open>Editing a shelf\<close>

text \<open>
  Claim C6. The shelf edit is claimed to update the rows and columns of the shelf and to
  create the slot records of the newly added extent, leaving the existing records alone.
  On shelf F of 2 rows and 3 columns, edited to 2 rows and 5 columns, \<open>apply_edit\<close>
  updates the shelf's metadata and leaves the six slot records as they are, but creates
  no slot for columns 4 and 5: \<open>populate_slots_for_shelf\<close> returns at once when the
  shelf has any slot. On a shelf without slots the same call does create them.
\<close>

theorem apply_edit_grow_creates_no_slots:
  "apply_edit scenario_db [''F''] [] ''2'' ''5'' True
     = Inr (scenario_db\<lparr>shelves := [\<lparr>name = ''F'', rows_count = 2, cols_count = 5\<rparr>]\<rparr>)
   \<and> get_slot_by_position (scenario_db\<lparr>shelves := [\<lparr>name = ''F'', rows_count = 2, cols_count = 5\<rparr>]\<rparr>) ''F'' ''A'' 4 = None
   \<and> map sid (slots (scenario_db\<lparr>shelves := [\<lparr>name = ''F'', rows_count = 2, cols_count = 5\<rparr>]\<rparr>)) = [1, 2, 3, 4, 5, 6]
   \<and> slots (populate_slots_for_shelf (scenario_db\<lparr>slots := []\<rparr>) ''F'' 1 2)
       = [\<lparr>sid = 7, shelf = ''F'', row = ''A'', col = 1, occupied = 0\<rparr>,
          \<lparr>sid = 8, shelf = ''F'', row = ''A'', col = 2, occupied = 0\<rparr>]"
  by code_simp

subsection \<open>Falling back to the Overflow section\<close>

lemma parse_bound_pos: "parse_bound t = Some (r, c) \<Longrightarrow> 1 \<le> c"
  by (auto simp: parse_bound_def Let_def split: option.splits if_splits)

lemma get_letter_section_pos:
  assumes "get_letter_section d l = Some (sh, sr, sc, er, ec)"
  shows "1 \<le> sc"
  using assms
  by (auto simp: get_letter_section_def split: option.splits if_splits dest: parse_bound_pos)

text \<open>
  Claim C5, as stated, fails: the result of the fallback is not always made of slots from
  the Overflow bound only, and it can hold a slot of the primary section. In
  \<open>adjoining_db\<close> the primary section of letter A has no fit for a large basket (F-A3 is
  free, its neighbour F-A4 is not), and the Overflow search returns the pair F-A2, F-A3:
  the partner F-A3 lies outside the Overflow bound A1 to A2 and inside the section of
  letter A, as \<open>is_slot_in_letter_section\<close> itself says. The occupancy flags are those the
  repair pass computes from the prescriptions.
\<close>

theorem find_with_overflow_partner_counterexample:
  "get_letter_section adjoining_db ''A'' = Some (''F'', CHR ''A'', 3, CHR ''A'', 4)
   \<and> get_overflow_section adjoining_db = Some (''F'', CHR ''A'', 1, CHR ''A'', 2)
   \<and> repair_slot_occupancy adjoining_db = adjoining_db
   \<and> find_next_available_slot_primary adjoining_db ''A'' ''large'' = None
   \<and> find_next_available_slot_with_overflow adjoining_db ''A'' ''large'' = Some ([2, 3], ''F'')
   \<and> slot_id_to_tuple adjoining_db 3 = Some (''F'', ''A'', 3)
   \<and> is_slot_in_letter_section adjoining_db ''A'' 3 = True
   \<and> in_section (CHR ''A'') 3 (CHR ''A'') 4 (CHR ''A'') 3
   \<and> in_section (CHR ''A'') 1 (CHR ''A'') 2 (CHR ''A'') 3 = False"
  by code_simp

text \<open>
  Claim C5, amended. \<open>find_next_available_slot_with_overflow\<close> returns the result of the
  primary search when there is one. The primary search has no result exactly when the
  letter has no usable section or no examined position of its bound holds a free fit.
  Then, when Overflow has no usable section, the answer is \<open>None\<close>; otherwise the
  answer is the result of \<open>find_slot_in_section\<close> on the Overflow shelf and bound: \<open>None\<close>
  exactly when no examined position of the Overflow bound holds a free fit, and else the
  free fit at the earliest examined position of the Overflow bound, on the Overflow
  shelf, and that position is none the primary search examined. This is about the
  position of the first slot of the result; the partner slot of a large basket is its
  next-column neighbour, wherever that lies.
\<close>

theorem find_next_available_slot_with_overflow_cases:
  assumes "unique_positions d"
  shows "(find_next_available_slot_primary d l b = Some res \<longrightarrow>
            find_next_available_slot_with_overflow d l b = Some res)
       \<and> (find_next_available_slot_primary d l b = None \<longleftrightarrow>
            (get_letter_section d l = None
             \<or> (\<exists>sh sr sc er ec. get_letter_section d l = Some (sh, sr, sc, er, ec)
                   \<and> (\<forall>r c ids. scanned sr sc er ec r c \<longrightarrow> \<not> fits d sh b r c ids))))
       \<and> (find_next_available_slot_primary d l b = None \<and> get_overflow_section d = None \<longrightarrow>
            find_next_available_slot_with_overflow d l b = None)
       \<and> (find_next_available_slot_primary d l b = None
            \<and> get_overflow_section d = Some (osh, osr, osc, oer, oec) \<longrightarrow>
            find_next_available_slot_with_overflow d l b = find_slot_in_section d osh osr osc oer oec b
            \<and> (find_next_available_slot_with_overflow d l b = None \<longleftrightarrow>
                  (\<forall>r c ids. scanned osr osc oer oec r c \<longrightarrow> \<not> fits d osh b r c ids))
            \<and> (find_next_available_slot_with_overflow d l b = Some (ids, nm) \<longrightarrow>
                  nm = osh
                  \<and> (\<exists>r c. scanned osr osc oer oec r c \<and> fits d osh b r c ids
                        \<and> (\<forall>r' c' ids'. scanned osr osc oer oec r' c' \<and> before r' c' r c
                               \<longrightarrow> \<not> fits d osh b r' c' ids')
                        \<and> (\<forall>sh sr sc er ec. get_letter_section d l = Some (sh, sr, sc, er, ec)
                               \<longrightarrow> \<not> (sh = osh \<and> scanned sr sc er ec r c)))))"
proof (intro conjI impI)
  assume "find_next_available_slot_primary d l b = Some res"
  then show "find_next_available_slot_with_overflow d l b = Some res"
    by (simp add: find_next_available_slot_with_overflow_def)
next
  show "find_next_available_slot_primary d l b = None \<longleftrightarrow>
            (get_letter_section d l = None
             \<or> (\<exists>sh sr sc er ec. get_letter_section d l = Some (sh, sr, sc, er, ec)
                   \<and> (\<forall>r c ids. scanned sr sc er ec r c \<longrightarrow> \<not> fits d sh b r c ids)))"
  proof (cases "get_letter_section d l")
    case None
    then show ?thesis by (simp add: find_next_available_slot_primary_def)
  next
    case (Some sec)
    obtain sh sr sc er ec where sec: "sec = (sh, sr, sc, er, ec)" by (cases sec) auto
    from Some sec have g: "get_letter_section d l = Some (sh, sr, sc, er, ec)" by simp
    from get_letter_section_pos[OF g] have p: "1 \<le> sc" .
    have "find_next_available_slot_primary d l b = find_slot_in_section d sh sr sc er ec b"
      using g by (simp add: find_next_available_slot_primary_def)
    then show ?thesis
      unfolding g using conjunct1[OF find_first_fit[OF p assms, of sh sr er ec b]] by simp
  qed
next
  assume "find_next_available_slot_primary d l b = None \<and> get_overflow_section d = None"
  then show "find_next_available_slot_with_overflow d l b = None"
    by (simp add: find_next_available_slot_with_overflow_def)
next
  assume a: "find_next_available_slot_primary d l b = None
            \<and> get_overflow_section d = Some (osh, osr, osc, oer, oec)"
  then show e: "find_next_available_slot_with_overflow d l b = find_slot_in_section d osh osr osc oer oec b"
    by (cases "find_slot_in_section d osh osr osc oer oec b")
       (simp_all add: find_next_available_slot_with_overflow_def)
  from a have "get_letter_section d ''Overflow'' = Some (osh, osr, osc, oer, oec)"
    by (simp add: get_overflow_section_def)
  from get_letter_section_pos[OF this] have op: "1 \<le> osc" .
  note ff = find_first_fit[OF op assms, of osh osr oer oec b]
  show "find_next_available_slot_with_overflow d l b = None \<longleftrightarrow>
                  (\<forall>r c ids. scanned osr osc oer oec r c \<longrightarrow> \<not> fits d osh b r c ids)"
    unfolding e by (rule conjunct1[OF ff])
  assume s: "find_next_available_slot_with_overflow d l b = Some (ids, nm)"
  with e have "find_slot_in_section d osh osr osc oer oec b = Some (ids, nm)" by simp
  then have r: "nm = osh \<and> (\<exists>r c. scanned osr osc oer oec r c \<and> fits d osh b r c ids
               \<and> (\<forall>r' c' ids'. scanned osr osc oer oec r' c' \<and> before r' c' r c
                      \<longrightarrow> \<not> fits d osh b r' c' ids'))"
    unfolding conjunct2[OF find_first_fit[OF op assms]] .
  then show "nm = osh" by (rule conjunct1)
  from r obtain r0 c0 where rc: "scanned osr osc oer oec r0 c0" "fits d osh b r0 c0 ids"
    "\<forall>r' c' ids'. scanned osr osc oer oec r' c' \<and> before r' c' r0 c0 \<longrightarrow> \<not> fits d osh b r' c' ids'"
    by blast
  have "\<forall>sh sr sc er ec. get_letter_section d l = Some (sh, sr, sc, er, ec)
                               \<longrightarrow> \<not> (sh = osh \<and> scanned sr sc er ec r0 c0)"
  proof (intro allI impI notI)
    fix sh sr sc er ec
    assume g: "get_letter_section d l = Some (sh, sr, sc, er, ec)"
      and i: "sh = osh \<and> scanned sr sc er ec r0 c0"
    from get_letter_section_pos[OF g] have p: "1 \<le> sc" .
    from a g have "find_slot_in_section d sh sr sc er ec b = None"
      by (simp add: find_next_available_slot_primary_def)
    then have "\<forall>r c ids. scanned sr sc er ec r c \<longrightarrow> \<not> fits d sh b r c ids"
      unfolding conjunct1[OF find_first_fit[OF p assms]] .
    with i rc(2) show False by blast
  qed
  with rc show "\<exists>r c. scanned osr osc oer oec r c \<and> fits d osh b r c ids
                        \<and> (\<forall>r' c' ids'. scanned osr osc oer oec r' c' \<and> before r' c' r c
                               \<longrightarrow> \<not> fits d osh b r' c' ids')
                        \<and> (\<forall>sh sr sc er ec. get_letter_section d l = Some (sh, sr, sc, er, ec)
                               \<longrightarrow> \<not> (sh = osh \<and> scanned sr sc er ec r c))"
    by blast
qed

theorem find_next_available_slot_with_overflow_cases_witness:
  "unique_positions scenario_db \<and> unique_positions overflow_db
   \<and> find_next_available_slot_primary scenario_db ''A'' ''small'' = Some ([5], ''F'')
   \<and> find_next_available_slot_with_overflow scenario_db ''A'' ''small'' = Some ([5], ''F'')
   \<and> find_next_available_slot_primary scenario_db ''B'' ''small'' = None
   \<and> get_overflow_section scenario_db = None
   \<and> find_next_available_slot_with_overflow scenario_db ''B'' ''small'' = None
   \<and> get_letter_section overflow_db ''A'' = Some (''F'', CHR ''A'', 1, CHR ''A'', 2)
   \<and> find_next_available_slot_primary overflow_db ''A'' ''small'' = None
   \<and> get_overflow_section overflow_db = Some (''L'', CHR ''A'', 1, CHR ''A'', 2)
   \<and> find_next_available_slot_with_overflow overflow_db ''A'' ''small'' = Some ([3], ''L'')
   \<and> (\<exists>r c. scanned (CHR ''A'') 1 (CHR ''A'') 2 r c \<and> fits overflow_db ''L'' ''small'' r c [3])"
proof -
  have u1: "unique_positions scenario_db" by code_simp
  have u2: "unique_positions overflow_db" by code_simp
  have p1: "find_next_available_slot_primary scenario_db ''A'' ''small'' = Some ([5], ''F'')" by code_simp
  have p2: "find_next_available_slot_primary scenario_db ''B'' ''small'' = None" by code_simp
  have o2: "get_overflow_section scenario_db = None" by code_simp
  have g3: "get_letter_section overflow_db ''A'' = Some (''F'', CHR ''A'', 1, CHR ''A'', 2)" by code_simp
  have p3: "find_next_available_slot_primary overflow_db ''A'' ''small'' = None" by code_simp
  have o3: "get_overflow_section overflow_db = Some (''L'', CHR ''A'', 1, CHR ''A'', 2)" by code_simp
  have f3: "find_slot_in_section overflow_db ''L'' (CHR ''A'') 1 (CHR ''A'') 2 ''small'' = Some ([3], ''L'')"
    by code_simp
  from find_next_available_slot_with_overflow_cases[OF u1, of "''A''" "''small''" "([5], ''F'')"] p1
  have r1: "find_next_available_slot_with_overflow scenario_db ''A'' ''small'' = Some ([5], ''F'')"
    by blast
  from find_next_available_slot_with_overflow_cases[OF u1, of "''B''" "''small''"] p2 o2
  have r2: "find_next_available_slot_with_overflow scenario_db ''B'' ''small'' = None"
    by blast
  note t3 = find_next_available_slot_with_overflow_cases[OF u2, of "''A''" "''small''" _
      "''L''" "CHR ''A''" 1 "CHR ''A''" 2 "[3]" "''L''"]
  from t3 p3 o3 f3
  have r3: "find_next_available_slot_with_overflow overflow_db ''A'' ''small'' = Some ([3], ''L'')"
    by simp
  from t3 p3 o3 r3 g3
  have e3: "\<exists>r c. scanned (CHR ''A'') 1 (CHR ''A'') 2 r c \<and> fits overflow_db ''L'' ''small'' r c [3]"
    by blast
  from u1 u2 p1 r1 p2 o2 r2 g3 p3 o3 r3 e3 show ?thesis by blast
qed

end
